theory Spec2Isabelle
  imports Main "HOL-Library.Word"
begin

section \<open>Data model of runtime/transaction.cc\<close>

text \<open>
  Object identities are addresses (\<open>mirror::Object*\<close>, on a 64-bit target);
  \<open>0\<close> is \<open>nullptr\<close>, and the raw value logged for a reference is the address.
  A \<open>MemberOffset\<close> is used only through \<open>Uint32Value()\<close>, so it is a 32-bit word;
  array indices are \<open>size_t\<close>.
\<close>

type_synonym obj = "64 word"
type_synonym MemberOffset = "32 word"
type_synonym size_t = "64 word"
type_synonym int32_t = "32 word"

definition nullptr :: obj where
  "nullptr = 0"

text \<open>\<open>CHECK\<close>, \<open>DCHECK\<close> and \<open>LOG(FATAL)\<close> end the process; the text is the failed condition.\<close>

datatype fatal = DCheckFailed string | CheckFailed string | LogFatal string

datatype FieldValueKind = kBoolean | kByte | kChar | kShort | k32Bits | k64Bits | kReference

record FieldValue =
  fv_value :: "64 word"
  fv_kind :: FieldValueKind
  fv_is_volatile :: bool

datatype Primitive_Type =
  kPrimNot | kPrimBoolean | kPrimByte | kPrimChar | kPrimShort | kPrimInt | kPrimLong
  | kPrimFloat | kPrimDouble | kPrimVoid

datatype StringKind = kStrongString | kWeakString

datatype StringOp = kInsert | kRemove

record InternStringLog =
  str :: obj
  string_kind :: StringKind
  string_op :: StringOp

record ResolveStringLog =
  dex_cache :: obj
  string_idx :: "32 word"

text \<open>
  Modelled from the spec: the containers, which are declared in transaction.h (not among
  the sources). The spec gives the object and array logs, and the logs inside them, as
  mappings, and the two string logs as ordered sequences. A mapping is an association
  list that holds each key once, here kept in ascending key order as an ordered map
  iterates, with \<open>map_of\<close> as \<open>find\<close>. \<open>map_emplace\<close> inserts only where the key is
  absent, \<open>map_update\<close> writes through a reference to an existing entry, \<open>map_erase\<close>
  removes a key. No statement below depends on the order of the keys.
\<close>

fun map_emplace :: "'k::linorder \<Rightarrow> 'v \<Rightarrow> ('k \<times> 'v) list \<Rightarrow> ('k \<times> 'v) list" where
  "map_emplace k v [] = [(k, v)]"
| "map_emplace k v ((k', v') # m) =
     (if k = k' then (k', v') # m
      else if k < k' then (k, v) # (k', v') # m
      else (k', v') # map_emplace k v m)"

fun map_update :: "'k \<Rightarrow> 'v \<Rightarrow> ('k \<times> 'v) list \<Rightarrow> ('k \<times> 'v) list" where
  "map_update k v [] = []"
| "map_update k v ((k', v') # m) =
     (if k = k' then (k', v) # m else (k', v') # map_update k v m)"

definition map_erase :: "'k \<Rightarrow> ('k \<times> 'v) list \<Rightarrow> ('k \<times> 'v) list" where
  "map_erase k m = filter (\<lambda>kv. fst kv \<noteq> k) m"

type_synonym ObjectLog = "(MemberOffset \<times> FieldValue) list"
type_synonym ArrayLog = "(size_t \<times> 64 word) list"

record Transaction =
  aborted :: bool
  rolling_back :: bool
  strict :: bool
  root :: obj
  abort_message :: string
  assert_no_new_records_reason :: "string option"
  object_logs :: "(obj \<times> ObjectLog) list"
  array_logs :: "(obj \<times> ArrayLog) list"
  intern_string_logs :: "InternStringLog list"
  resolve_string_logs :: "ResolveStringLog list"

text \<open>
  What the transaction asks of its collaborators (runtime, current thread, heap, object
  model), none of which is defined in transaction.cc: each is a field of the environment.
  \<open>ClassOffset\<close> and \<open>LengthOffset\<close> are the layout constants
  \<open>mirror::Class::ClassOffset()\<close> and \<open>mirror::Array::LengthOffset()\<close>;
  \<open>ComponentPrimitiveType a\<close> is \<open>a->GetClass()->GetComponentType()->GetPrimitiveType()\<close>;
  \<open>GetInternTable\<close> is the address of the runtime's interning table.
\<close>

record Runtime =
  kIsDebugBuild :: bool
  IsAotCompiler :: bool
  IsActiveTransaction :: bool
  PendingException :: bool
  InternTableLockHeld :: bool
  GetInternTable :: "64 word"
  ObjectIsInBootImageSpace :: "obj \<Rightarrow> bool"
  BootImageSpacesEmpty :: bool
  IsClass :: "obj \<Rightarrow> bool"
  GetClass :: "obj \<Rightarrow> obj"
  CanReferenceInBootImageExtension :: "obj \<Rightarrow> bool"
  IsArrayInstance :: "obj \<Rightarrow> bool"
  IsObjectArray :: "obj \<Rightarrow> bool"
  ComponentPrimitiveType :: "obj \<Rightarrow> Primitive_Type"
  ClassOffset :: MemberOffset
  LengthOffset :: MemberOffset
  NumStringIds :: "obj \<Rightarrow> 32 word"

section \<open>Construction, abort, accessors\<close>

text \<open>
  The constructor's initialiser list; the message and the four collections are
  default-constructed, that is empty.
\<close>

definition Transaction_init :: "bool \<Rightarrow> obj \<Rightarrow> Transaction" where
  "Transaction_init strict_arg root_arg =
     \<lparr> aborted = False, rolling_back = False, strict = strict_arg, root = root_arg,
       abort_message = [], assert_no_new_records_reason = None,
       object_logs = [], array_logs = [],
       intern_string_logs = [], resolve_string_logs = [] \<rparr>"

definition Transaction_new :: "Runtime \<Rightarrow> bool \<Rightarrow> obj \<Rightarrow> fatal + Transaction" where
  "Transaction_new rt strict_arg root_arg =
     (if kIsDebugBuild rt \<and> \<not> IsAotCompiler rt
      then Inl (DCheckFailed ''Runtime::Current()->IsAotCompiler()'')
      else Inr (Transaction_init strict_arg root_arg))"

definition Abort :: "string \<Rightarrow> Transaction \<Rightarrow> Transaction" where
  "Abort msg t =
     (if \<not> aborted t then t\<lparr> aborted := True, abort_message := msg \<rparr> else t)"

definition IsAborted :: "Transaction \<Rightarrow> bool" where
  "IsAborted t = aborted t"

definition IsRollingBack :: "Transaction \<Rightarrow> bool" where
  "IsRollingBack t = rolling_back t"

definition GetAbortMessage :: "Transaction \<Rightarrow> string" where
  "GetAbortMessage t = abort_message t"

definition IsStrict :: "Transaction \<Rightarrow> bool" where
  "IsStrict t = strict t"

section \<open>Constraints\<close>

definition WriteConstraint :: "Runtime \<Rightarrow> Transaction \<Rightarrow> obj \<Rightarrow> fatal + bool" where
  "WriteConstraint rt t ob =
     (if kIsDebugBuild rt \<and> ob = nullptr then Inl (DCheckFailed ''obj != nullptr'')
      else if ObjectIsInBootImageSpace rt ob then Inr True
      else Inr (IsStrict t \<and> IsClass rt ob \<and> ob \<noteq> root t))"

definition WriteValueConstraint :: "Runtime \<Rightarrow> Transaction \<Rightarrow> obj \<Rightarrow> bool" where
  "WriteValueConstraint rt t val =
     (if val = nullptr then False
      else if IsStrict t then False
      else if BootImageSpacesEmpty rt then False
      else let klass = (if IsClass rt val then val else GetClass rt val)
           in \<not> CanReferenceInBootImageExtension rt klass)"

definition ReadConstraint :: "Runtime \<Rightarrow> Transaction \<Rightarrow> obj \<Rightarrow> fatal + bool" where
  "ReadConstraint rt t ob =
     (if kIsDebugBuild rt \<and> \<not> IsClass rt ob then Inl (DCheckFailed ''obj->IsClass()'')
      else if IsStrict t then Inr (ob \<noteq> root t)
      else Inr False)"

section \<open>Effects on the collaborators\<close>

text \<open>
  The accessors of the object model, the interning table and the string cache are called,
  not defined, by transaction.cc. An undo is the sequence of those calls, each with the
  arguments it is given after the conversions written at the call site.
\<close>

datatype field_write =
    SetFieldBoolean obj MemberOffset "8 word"
  | SetFieldBooleanVolatile obj MemberOffset "8 word"
  | SetFieldByte obj MemberOffset "8 word"
  | SetFieldByteVolatile obj MemberOffset "8 word"
  | SetFieldChar obj MemberOffset "16 word"
  | SetFieldCharVolatile obj MemberOffset "16 word"
  | SetFieldShort obj MemberOffset "16 word"
  | SetFieldShortVolatile obj MemberOffset "16 word"
  | SetField32 obj MemberOffset "32 word"
  | SetField32Volatile obj MemberOffset "32 word"
  | SetField64 obj MemberOffset "64 word"
  | SetField64Volatile obj MemberOffset "64 word"
  | SetFieldObject obj MemberOffset obj
  | SetFieldObjectVolatile obj MemberOffset obj

text \<open>
  \<open>SetWithoutChecks\<close> on the typed view of the array. Its index parameter is an
  \<open>int32_t\<close>. A \<open>float\<close> or \<open>double\<close> argument is given by its IEEE 754 encoding
  (binary32, binary64).
\<close>

datatype array_write =
    BooleanArray_Set obj int32_t "8 word"
  | ByteArray_Set obj int32_t "8 word"
  | CharArray_Set obj int32_t "16 word"
  | ShortArray_Set obj int32_t "16 word"
  | IntArray_Set obj int32_t "32 word"
  | FloatArray_Set obj int32_t "32 word"
  | LongArray_Set obj int32_t "64 word"
  | DoubleArray_Set obj int32_t "64 word"

datatype intern_op =
    RemoveStrongFromTransaction obj
  | RemoveWeakFromTransaction obj
  | InsertStrongFromTransaction obj
  | InsertWeakFromTransaction obj

datatype effect =
    is_FieldWrite: FieldWrite field_write
  | is_ArrayWrite: ArrayWrite array_write
  | is_InternOp: InternOp intern_op
  | is_ClearString: ClearString obj "32 word"

text \<open>The object and offset (array and index) an accessor call writes to.\<close>

fun field_write_target :: "field_write \<Rightarrow> obj \<times> MemberOffset" where
  "field_write_target (SetFieldBoolean ob off v) = (ob, off)"
| "field_write_target (SetFieldBooleanVolatile ob off v) = (ob, off)"
| "field_write_target (SetFieldByte ob off v) = (ob, off)"
| "field_write_target (SetFieldByteVolatile ob off v) = (ob, off)"
| "field_write_target (SetFieldChar ob off v) = (ob, off)"
| "field_write_target (SetFieldCharVolatile ob off v) = (ob, off)"
| "field_write_target (SetFieldShort ob off v) = (ob, off)"
| "field_write_target (SetFieldShortVolatile ob off v) = (ob, off)"
| "field_write_target (SetField32 ob off v) = (ob, off)"
| "field_write_target (SetField32Volatile ob off v) = (ob, off)"
| "field_write_target (SetField64 ob off v) = (ob, off)"
| "field_write_target (SetField64Volatile ob off v) = (ob, off)"
| "field_write_target (SetFieldObject ob off v) = (ob, off)"
| "field_write_target (SetFieldObjectVolatile ob off v) = (ob, off)"

fun array_write_target :: "array_write \<Rightarrow> obj \<times> int32_t" where
  "array_write_target (BooleanArray_Set a i v) = (a, i)"
| "array_write_target (ByteArray_Set a i v) = (a, i)"
| "array_write_target (CharArray_Set a i v) = (a, i)"
| "array_write_target (ShortArray_Set a i v) = (a, i)"
| "array_write_target (IntArray_Set a i v) = (a, i)"
| "array_write_target (FloatArray_Set a i v) = (a, i)"
| "array_write_target (LongArray_Set a i v) = (a, i)"
| "array_write_target (DoubleArray_Set a i v) = (a, i)"

fun writes_field :: "obj \<Rightarrow> MemberOffset \<Rightarrow> effect \<Rightarrow> bool" where
  "writes_field ob off (FieldWrite w) = (field_write_target w = (ob, off))"
| "writes_field ob off (ArrayWrite w) = False"
| "writes_field ob off (InternOp w) = False"
| "writes_field ob off (ClearString c i) = False"

fun writes_element :: "obj \<Rightarrow> int32_t \<Rightarrow> effect \<Rightarrow> bool" where
  "writes_element a i (ArrayWrite w) = (array_write_target w = (a, i))"
| "writes_element a i (FieldWrite w) = False"
| "writes_element a i (InternOp w) = False"
| "writes_element a i (ClearString c j) = False"

section \<open>Conversions of the raw 64-bit value\<close>

text \<open>
  \<open>static_cast<float>(value)\<close> and \<open>static_cast<double>(value)\<close> of a \<open>uint64_t\<close> are
  numeric conversions: the result is the floating-point number nearest to the integer
  (ties to even), here as its encoding with \<open>p\<close> fraction bits and exponent bias \<open>bias\<close>.
  No \<open>uint64_t\<close> reaches the exponent range of infinity.
\<close>

fun bit_length :: "nat \<Rightarrow> nat" where
  "bit_length n = (if n = 0 then 0 else Suc (bit_length (n div 2)))"

declare bit_length.simps [simp del]

definition uint_to_ieee :: "nat \<Rightarrow> nat \<Rightarrow> nat \<Rightarrow> nat" where
  "uint_to_ieee p bias v =
     (if v = 0 then 0
      else let e = bit_length v - 1 in
        if e \<le> p then (e + bias) * 2 ^ p + (v * 2 ^ (p - e) - 2 ^ p)
        else let sh = e - p; q = v div 2 ^ sh; r = v mod 2 ^ sh; half = 2 ^ (sh - 1);
                 q' = (if half < r \<or> (r = half \<and> odd q) then q + 1 else q)
             in if q' = 2 ^ (p + 1) then (e + 1 + bias) * 2 ^ p
                else (e + bias) * 2 ^ p + (q' - 2 ^ p))"

definition static_cast_float :: "64 word \<Rightarrow> 32 word" where
  "static_cast_float v = of_nat (uint_to_ieee 23 127 (unat v))"

definition static_cast_double :: "64 word \<Rightarrow> 64 word" where
  "static_cast_double v = of_nat (uint_to_ieee 52 1023 (unat v))"

section \<open>Checks\<close>

definition dcheck :: "Runtime \<Rightarrow> bool \<Rightarrow> string \<Rightarrow> fatal + 'a \<Rightarrow> fatal + 'a" where
  "dcheck rt cond msg k = (if kIsDebugBuild rt \<and> \<not> cond then Inl (DCheckFailed msg) else k)"

definition check :: "bool \<Rightarrow> string \<Rightarrow> fatal + 'a \<Rightarrow> fatal + 'a" where
  "check cond msg k = (if \<not> cond then Inl (CheckFailed msg) else k)"

section \<open>ObjectLog and ArrayLog: logging\<close>

definition LogValue ::
  "FieldValueKind \<Rightarrow> MemberOffset \<Rightarrow> 64 word \<Rightarrow> bool \<Rightarrow> ObjectLog \<Rightarrow> ObjectLog" where
  "LogValue kind off v is_volatile field_values =
     (case map_of field_values off of
        None \<Rightarrow>
          map_emplace off \<lparr> fv_value = v, fv_kind = kind, fv_is_volatile = is_volatile \<rparr>
            field_values
      | Some _ \<Rightarrow> field_values)"

text \<open>
  The typed values widen to \<open>uint64_t\<close> at the call of \<open>LogValue\<close>: \<open>uint8_t\<close>, \<open>uint16_t\<close>,
  \<open>uint32_t\<close> and the pointer zero-extend, \<open>int8_t\<close> and \<open>int16_t\<close> sign-extend.
\<close>

definition LogBooleanValue :: "MemberOffset \<Rightarrow> 8 word \<Rightarrow> bool \<Rightarrow> ObjectLog \<Rightarrow> ObjectLog" where
  "LogBooleanValue off v is_volatile = LogValue kBoolean off (ucast v) is_volatile"

definition LogByteValue :: "MemberOffset \<Rightarrow> 8 word \<Rightarrow> bool \<Rightarrow> ObjectLog \<Rightarrow> ObjectLog" where
  "LogByteValue off v is_volatile = LogValue kByte off (scast v) is_volatile"

definition LogCharValue :: "MemberOffset \<Rightarrow> 16 word \<Rightarrow> bool \<Rightarrow> ObjectLog \<Rightarrow> ObjectLog" where
  "LogCharValue off v is_volatile = LogValue kChar off (ucast v) is_volatile"

definition LogShortValue :: "MemberOffset \<Rightarrow> 16 word \<Rightarrow> bool \<Rightarrow> ObjectLog \<Rightarrow> ObjectLog" where
  "LogShortValue off v is_volatile = LogValue kShort off (scast v) is_volatile"

definition Log32BitsValue :: "MemberOffset \<Rightarrow> 32 word \<Rightarrow> bool \<Rightarrow> ObjectLog \<Rightarrow> ObjectLog" where
  "Log32BitsValue off v is_volatile = LogValue k32Bits off (ucast v) is_volatile"

definition Log64BitsValue :: "MemberOffset \<Rightarrow> 64 word \<Rightarrow> bool \<Rightarrow> ObjectLog \<Rightarrow> ObjectLog" where
  "Log64BitsValue off v is_volatile = LogValue k64Bits off v is_volatile"

definition LogReferenceValue :: "MemberOffset \<Rightarrow> obj \<Rightarrow> bool \<Rightarrow> ObjectLog \<Rightarrow> ObjectLog" where
  "LogReferenceValue off ob is_volatile = LogValue kReference off ob is_volatile"

definition ArrayLog_LogValue :: "size_t \<Rightarrow> 64 word \<Rightarrow> ArrayLog \<Rightarrow> ArrayLog" where
  "ArrayLog_LogValue index v array_values =
     (case map_of array_values index of
        None \<Rightarrow> map_emplace index v array_values
      | Some _ \<Rightarrow> array_values)"

section \<open>Transaction: recording\<close>

text \<open>
  \<open>object_logs_[obj]\<close> creates an empty log where the object has none and gives a
  reference to the object's log; \<open>f\<close> is what the caller then does to that log.
\<close>

definition object_logs_subscript ::
  "obj \<Rightarrow> (ObjectLog \<Rightarrow> ObjectLog) \<Rightarrow> Transaction \<Rightarrow> Transaction" where
  "object_logs_subscript ob f t =
     (case map_of (object_logs t) ob of
        None \<Rightarrow> t\<lparr> object_logs := map_emplace ob (f []) (object_logs t) \<rparr>
      | Some object_log \<Rightarrow> t\<lparr> object_logs := map_update ob (f object_log) (object_logs t) \<rparr>)"

definition RecordWriteFieldBoolean ::
  "Runtime \<Rightarrow> obj \<Rightarrow> MemberOffset \<Rightarrow> 8 word \<Rightarrow> bool \<Rightarrow> Transaction \<Rightarrow> fatal + Transaction" where
  "RecordWriteFieldBoolean rt ob off v is_volatile t =
     dcheck rt (ob \<noteq> nullptr) ''obj != nullptr''
      (dcheck rt (assert_no_new_records_reason t = None) ''assert_no_new_records_reason_ == nullptr''
        (Inr (object_logs_subscript ob (LogBooleanValue off v is_volatile) t)))"

definition RecordWriteFieldByte ::
  "Runtime \<Rightarrow> obj \<Rightarrow> MemberOffset \<Rightarrow> 8 word \<Rightarrow> bool \<Rightarrow> Transaction \<Rightarrow> fatal + Transaction" where
  "RecordWriteFieldByte rt ob off v is_volatile t =
     dcheck rt (ob \<noteq> nullptr) ''obj != nullptr''
      (dcheck rt (assert_no_new_records_reason t = None) ''assert_no_new_records_reason_ == nullptr''
        (Inr (object_logs_subscript ob (LogByteValue off v is_volatile) t)))"

definition RecordWriteFieldChar ::
  "Runtime \<Rightarrow> obj \<Rightarrow> MemberOffset \<Rightarrow> 16 word \<Rightarrow> bool \<Rightarrow> Transaction \<Rightarrow> fatal + Transaction" where
  "RecordWriteFieldChar rt ob off v is_volatile t =
     dcheck rt (ob \<noteq> nullptr) ''obj != nullptr''
      (dcheck rt (assert_no_new_records_reason t = None) ''assert_no_new_records_reason_ == nullptr''
        (Inr (object_logs_subscript ob (LogCharValue off v is_volatile) t)))"

definition RecordWriteFieldShort ::
  "Runtime \<Rightarrow> obj \<Rightarrow> MemberOffset \<Rightarrow> 16 word \<Rightarrow> bool \<Rightarrow> Transaction \<Rightarrow> fatal + Transaction" where
  "RecordWriteFieldShort rt ob off v is_volatile t =
     dcheck rt (ob \<noteq> nullptr) ''obj != nullptr''
      (dcheck rt (assert_no_new_records_reason t = None) ''assert_no_new_records_reason_ == nullptr''
        (Inr (object_logs_subscript ob (LogShortValue off v is_volatile) t)))"

definition RecordWriteField32 ::
  "Runtime \<Rightarrow> obj \<Rightarrow> MemberOffset \<Rightarrow> 32 word \<Rightarrow> bool \<Rightarrow> Transaction \<Rightarrow> fatal + Transaction" where
  "RecordWriteField32 rt ob off v is_volatile t =
     dcheck rt (ob \<noteq> nullptr) ''obj != nullptr''
      (dcheck rt (assert_no_new_records_reason t = None) ''assert_no_new_records_reason_ == nullptr''
        (Inr (object_logs_subscript ob (Log32BitsValue off v is_volatile) t)))"

definition RecordWriteField64 ::
  "Runtime \<Rightarrow> obj \<Rightarrow> MemberOffset \<Rightarrow> 64 word \<Rightarrow> bool \<Rightarrow> Transaction \<Rightarrow> fatal + Transaction" where
  "RecordWriteField64 rt ob off v is_volatile t =
     dcheck rt (ob \<noteq> nullptr) ''obj != nullptr''
      (dcheck rt (assert_no_new_records_reason t = None) ''assert_no_new_records_reason_ == nullptr''
        (Inr (object_logs_subscript ob (Log64BitsValue off v is_volatile) t)))"

definition RecordWriteFieldReference ::
  "Runtime \<Rightarrow> obj \<Rightarrow> MemberOffset \<Rightarrow> obj \<Rightarrow> bool \<Rightarrow> Transaction \<Rightarrow> fatal + Transaction" where
  "RecordWriteFieldReference rt ob off v is_volatile t =
     dcheck rt (ob \<noteq> nullptr) ''obj != nullptr''
      (dcheck rt (assert_no_new_records_reason t = None) ''assert_no_new_records_reason_ == nullptr''
        (Inr (object_logs_subscript ob (LogReferenceValue off v is_volatile) t)))"

definition RecordWriteArray ::
  "Runtime \<Rightarrow> obj \<Rightarrow> size_t \<Rightarrow> 64 word \<Rightarrow> Transaction \<Rightarrow> fatal + Transaction" where
  "RecordWriteArray rt array index v t =
     dcheck rt (array \<noteq> nullptr) ''array != nullptr''
      (dcheck rt (IsArrayInstance rt array) ''array->IsArrayInstance()''
        (dcheck rt (\<not> IsObjectArray rt array) ''!array->IsObjectArray()''
          (dcheck rt (assert_no_new_records_reason t = None)
             ''assert_no_new_records_reason_ == nullptr''
            (Inr (case map_of (array_logs t) array of
                    None \<Rightarrow>
                      t\<lparr> array_logs :=
                           map_emplace array (ArrayLog_LogValue index v []) (array_logs t) \<rparr>
                  | Some log \<Rightarrow>
                      t\<lparr> array_logs :=
                           map_update array (ArrayLog_LogValue index v log) (array_logs t) \<rparr>)))))"

definition ResolveStringLog_new :: "Runtime \<Rightarrow> obj \<Rightarrow> 32 word \<Rightarrow> fatal + ResolveStringLog" where
  "ResolveStringLog_new rt cache idx =
     dcheck rt (cache \<noteq> nullptr) ''dex_cache != nullptr''
      (dcheck rt (idx < NumStringIds rt cache)
         ''string_idx_.index_ < dex_cache->GetDexFile()->NumStringIds()''
        (Inr \<lparr> dex_cache = cache, string_idx = idx \<rparr>))"

definition RecordResolveString ::
  "Runtime \<Rightarrow> obj \<Rightarrow> 32 word \<Rightarrow> Transaction \<Rightarrow> fatal + Transaction" where
  "RecordResolveString rt cache idx t =
     dcheck rt (cache \<noteq> nullptr) ''dex_cache != nullptr''
      (dcheck rt (idx < NumStringIds rt cache)
         ''string_idx.index_ < dex_cache->GetDexFile()->NumStringIds()''
        (dcheck rt (assert_no_new_records_reason t = None)
           ''assert_no_new_records_reason_ == nullptr''
          (case ResolveStringLog_new rt cache idx of
             Inl e \<Rightarrow> Inl e
           | Inr log \<Rightarrow> Inr (t\<lparr> resolve_string_logs := resolve_string_logs t @ [log] \<rparr>))))"

definition InternStringLog_new ::
  "Runtime \<Rightarrow> obj \<Rightarrow> StringKind \<Rightarrow> StringOp \<Rightarrow> fatal + InternStringLog" where
  "InternStringLog_new rt s kind op =
     dcheck rt (s \<noteq> nullptr) ''s != nullptr''
      (Inr \<lparr> str = s, string_kind = kind, string_op = op \<rparr>)"

definition LogInternedString ::
  "Runtime \<Rightarrow> InternStringLog \<Rightarrow> Transaction \<Rightarrow> fatal + Transaction" where
  "LogInternedString rt log t =
     dcheck rt (InternTableLockHeld rt) ''Locks::intern_table_lock_->AssertExclusiveHeld''
      (dcheck rt (assert_no_new_records_reason t = None)
         ''assert_no_new_records_reason_ == nullptr''
        (Inr (t\<lparr> intern_string_logs := log # intern_string_logs t \<rparr>)))"

definition RecordStrongStringInsertion :: "Runtime \<Rightarrow> obj \<Rightarrow> Transaction \<Rightarrow> fatal + Transaction" where
  "RecordStrongStringInsertion rt s t =
     (case InternStringLog_new rt s kStrongString kInsert of
        Inl e \<Rightarrow> Inl e | Inr log \<Rightarrow> LogInternedString rt log t)"

definition RecordWeakStringInsertion :: "Runtime \<Rightarrow> obj \<Rightarrow> Transaction \<Rightarrow> fatal + Transaction" where
  "RecordWeakStringInsertion rt s t =
     (case InternStringLog_new rt s kWeakString kInsert of
        Inl e \<Rightarrow> Inl e | Inr log \<Rightarrow> LogInternedString rt log t)"

definition RecordStrongStringRemoval :: "Runtime \<Rightarrow> obj \<Rightarrow> Transaction \<Rightarrow> fatal + Transaction" where
  "RecordStrongStringRemoval rt s t =
     (case InternStringLog_new rt s kStrongString kRemove of
        Inl e \<Rightarrow> Inl e | Inr log \<Rightarrow> LogInternedString rt log t)"

definition RecordWeakStringRemoval :: "Runtime \<Rightarrow> obj \<Rightarrow> Transaction \<Rightarrow> fatal + Transaction" where
  "RecordWeakStringRemoval rt s t =
     (case InternStringLog_new rt s kWeakString kRemove of
        Inl e \<Rightarrow> Inl e | Inr log \<Rightarrow> LogInternedString rt log t)"

section \<open>Undo\<close>

text \<open>
  \<open>UndoFieldWrite\<close>: the accessor is chosen by the logged kind and volatility; the raw value
  is narrowed to the accessor's parameter type (the low bits are kept).
\<close>

definition UndoFieldWrite :: "obj \<Rightarrow> MemberOffset \<Rightarrow> FieldValue \<Rightarrow> field_write" where
  "UndoFieldWrite ob field_offset field_value =
     (case fv_kind field_value of
        kBoolean \<Rightarrow>
          (if fv_is_volatile field_value
           then SetFieldBooleanVolatile ob field_offset (ucast (fv_value field_value))
           else SetFieldBoolean ob field_offset (ucast (fv_value field_value)))
      | kByte \<Rightarrow>
          (if fv_is_volatile field_value
           then SetFieldByteVolatile ob field_offset (ucast (fv_value field_value))
           else SetFieldByte ob field_offset (ucast (fv_value field_value)))
      | kChar \<Rightarrow>
          (if fv_is_volatile field_value
           then SetFieldCharVolatile ob field_offset (ucast (fv_value field_value))
           else SetFieldChar ob field_offset (ucast (fv_value field_value)))
      | kShort \<Rightarrow>
          (if fv_is_volatile field_value
           then SetFieldShortVolatile ob field_offset (ucast (fv_value field_value))
           else SetFieldShort ob field_offset (ucast (fv_value field_value)))
      | k32Bits \<Rightarrow>
          (if fv_is_volatile field_value
           then SetField32Volatile ob field_offset (ucast (fv_value field_value))
           else SetField32 ob field_offset (ucast (fv_value field_value)))
      | k64Bits \<Rightarrow>
          (if fv_is_volatile field_value
           then SetField64Volatile ob field_offset (fv_value field_value)
           else SetField64 ob field_offset (fv_value field_value))
      | kReference \<Rightarrow>
          (if fv_is_volatile field_value
           then SetFieldObjectVolatile ob field_offset (fv_value field_value)
           else SetFieldObject ob field_offset (fv_value field_value)))"

fun ObjectLog_Undo :: "Runtime \<Rightarrow> obj \<Rightarrow> ObjectLog \<Rightarrow> effect list" where
  "ObjectLog_Undo rt ob [] = []"
| "ObjectLog_Undo rt ob ((field_offset, field_value) # rest) =
     (if field_offset = ClassOffset rt then ObjectLog_Undo rt ob rest
      else if IsArrayInstance rt ob \<and> field_offset = LengthOffset rt
        then ObjectLog_Undo rt ob rest
      else FieldWrite (UndoFieldWrite ob field_offset field_value) # ObjectLog_Undo rt ob rest)"

text \<open>
  \<open>UndoArrayWrite\<close>: the \<open>size_t\<close> index narrows to the accessor's \<open>int32_t\<close>, the raw
  value is converted by the cast written in the branch.
\<close>

definition UndoArrayWrite ::
  "obj \<Rightarrow> Primitive_Type \<Rightarrow> size_t \<Rightarrow> 64 word \<Rightarrow> fatal + array_write" where
  "UndoArrayWrite array array_type index v =
     (case array_type of
        kPrimBoolean \<Rightarrow> Inr (BooleanArray_Set array (ucast index) (ucast v))
      | kPrimByte \<Rightarrow> Inr (ByteArray_Set array (ucast index) (ucast v))
      | kPrimChar \<Rightarrow> Inr (CharArray_Set array (ucast index) (ucast v))
      | kPrimShort \<Rightarrow> Inr (ShortArray_Set array (ucast index) (ucast v))
      | kPrimInt \<Rightarrow> Inr (IntArray_Set array (ucast index) (ucast v))
      | kPrimFloat \<Rightarrow> Inr (FloatArray_Set array (ucast index) (static_cast_float v))
      | kPrimLong \<Rightarrow> Inr (LongArray_Set array (ucast index) v)
      | kPrimDouble \<Rightarrow> Inr (DoubleArray_Set array (ucast index) (static_cast_double v))
      | kPrimNot \<Rightarrow> Inl (LogFatal ''ObjectArray should be treated as Object'')
      | kPrimVoid \<Rightarrow> Inl (LogFatal ''Unsupported type''))"

fun UndoArrayWrites :: "obj \<Rightarrow> Primitive_Type \<Rightarrow> ArrayLog \<Rightarrow> fatal + effect list" where
  "UndoArrayWrites array ty [] = Inr []"
| "UndoArrayWrites array ty ((index, v) # rest) =
     (case UndoArrayWrite array ty index v of
        Inl e \<Rightarrow> Inl e
      | Inr w \<Rightarrow>
          (case UndoArrayWrites array ty rest of
             Inl e \<Rightarrow> Inl e
           | Inr ws \<Rightarrow> Inr (ArrayWrite w # ws)))"

definition ArrayLog_Undo :: "Runtime \<Rightarrow> obj \<Rightarrow> ArrayLog \<Rightarrow> fatal + effect list" where
  "ArrayLog_Undo rt array array_values =
     dcheck rt (array \<noteq> nullptr) ''array != nullptr''
      (dcheck rt (IsArrayInstance rt array) ''array->IsArrayInstance()''
        (UndoArrayWrites array (ComponentPrimitiveType rt array) array_values))"

text \<open>
  \<open>InternStringLog::Undo\<close> checks the table it is given and then calls it;
  \<open>InternStringLog_Undo_op\<close> is its switch on the operation and the tier.
\<close>

definition InternStringLog_Undo_op :: "InternStringLog \<Rightarrow> intern_op" where
  "InternStringLog_Undo_op log =
     (case string_op log of
        kInsert \<Rightarrow>
          (case string_kind log of
             kStrongString \<Rightarrow> RemoveStrongFromTransaction (str log)
           | kWeakString \<Rightarrow> RemoveWeakFromTransaction (str log))
      | kRemove \<Rightarrow>
          (case string_kind log of
             kStrongString \<Rightarrow> InsertStrongFromTransaction (str log)
           | kWeakString \<Rightarrow> InsertWeakFromTransaction (str log)))"

definition InternStringLog_Undo :: "Runtime \<Rightarrow> InternStringLog \<Rightarrow> fatal + intern_op" where
  "InternStringLog_Undo rt log =
     dcheck rt (GetInternTable rt \<noteq> nullptr) ''intern_table != nullptr''
      (Inr (InternStringLog_Undo_op log))"

definition ResolveStringLog_Undo :: "ResolveStringLog \<Rightarrow> effect" where
  "ResolveStringLog_Undo log = ClearString (dex_cache log) (string_idx log)"

section \<open>Rollback\<close>

text \<open>
  Each phase takes the transaction and the calls made so far, and gives the transaction
  with its collection cleared and the calls extended. The loops follow the iteration
  order of the collection.
\<close>

fun UndoObjectLogs :: "Runtime \<Rightarrow> (obj \<times> ObjectLog) list \<Rightarrow> effect list" where
  "UndoObjectLogs rt [] = []"
| "UndoObjectLogs rt ((ob, log) # rest) = ObjectLog_Undo rt ob log @ UndoObjectLogs rt rest"

fun UndoArrayLogs :: "Runtime \<Rightarrow> (obj \<times> ArrayLog) list \<Rightarrow> fatal + effect list" where
  "UndoArrayLogs rt [] = Inr []"
| "UndoArrayLogs rt ((array, log) # rest) =
     (case ArrayLog_Undo rt array log of
        Inl e \<Rightarrow> Inl e
      | Inr ws \<Rightarrow>
          (case UndoArrayLogs rt rest of
             Inl e \<Rightarrow> Inl e
           | Inr ws' \<Rightarrow> Inr (ws @ ws')))"

definition UndoObjectModifications ::
  "Runtime \<Rightarrow> Transaction \<times> effect list \<Rightarrow> Transaction \<times> effect list" where
  "UndoObjectModifications rt w =
     (case w of (t, done) \<Rightarrow>
        (t\<lparr> object_logs := [] \<rparr>, done @ UndoObjectLogs rt (object_logs t)))"

definition UndoArrayModifications ::
  "Runtime \<Rightarrow> Transaction \<times> effect list \<Rightarrow> fatal + Transaction \<times> effect list" where
  "UndoArrayModifications rt w =
     (case w of (t, done) \<Rightarrow>
        (case UndoArrayLogs rt (array_logs t) of
           Inl e \<Rightarrow> Inl e
         | Inr ws \<Rightarrow> Inr (t\<lparr> array_logs := [] \<rparr>, done @ ws)))"

fun UndoInternStringLogs :: "Runtime \<Rightarrow> InternStringLog list \<Rightarrow> fatal + effect list" where
  "UndoInternStringLogs rt [] = Inr []"
| "UndoInternStringLogs rt (string_log # rest) =
     (case InternStringLog_Undo rt string_log of
        Inl e \<Rightarrow> Inl e
      | Inr op \<Rightarrow>
          (case UndoInternStringLogs rt rest of
             Inl e \<Rightarrow> Inl e
           | Inr ws \<Rightarrow> Inr (InternOp op # ws)))"

definition UndoInternStringTableModifications ::
  "Runtime \<Rightarrow> Transaction \<times> effect list \<Rightarrow> fatal + Transaction \<times> effect list" where
  "UndoInternStringTableModifications rt w =
     (case w of (t, done) \<Rightarrow>
        (case UndoInternStringLogs rt (intern_string_logs t) of
           Inl e \<Rightarrow> Inl e
         | Inr ws \<Rightarrow> Inr (t\<lparr> intern_string_logs := [] \<rparr>, done @ ws)))"

definition UndoResolveStringModifications ::
  "Transaction \<times> effect list \<Rightarrow> Transaction \<times> effect list" where
  "UndoResolveStringModifications w =
     (case w of (t, done) \<Rightarrow>
        (t\<lparr> resolve_string_logs := [] \<rparr>,
         done @ map ResolveStringLog_Undo (resolve_string_logs t)))"

text \<open>
  \<open>Rollback\<close>, statement by statement: the transaction and the calls made so far after
  \<open>rolling_back_ = true\<close>, after each of the four \<open>Undo*Modifications\<close> calls, and after
  \<open>rolling_back_ = false\<close>. The flag is read without the lock (\<open>IsRollingBack\<close>), so
  each of these states can be observed. \<open>Rollback\<close> leaves the last of them.
\<close>

definition Rollback_steps ::
  "Runtime \<Rightarrow> Transaction \<Rightarrow> fatal + (Transaction \<times> effect list) list" where
  "Rollback_steps rt t =
     dcheck rt (\<not> PendingException rt) ''self->AssertNoPendingException()''
      (let w0 = (t\<lparr> rolling_back := True \<rparr>, []) in
       check (\<not> IsActiveTransaction rt) ''!Runtime::Current()->IsActiveTransaction()''
        (let w1 = UndoObjectModifications rt w0 in
         case UndoArrayModifications rt w1 of
           Inl e \<Rightarrow> Inl e
         | Inr w2 \<Rightarrow>
             (case UndoInternStringTableModifications rt w2 of
                Inl e \<Rightarrow> Inl e
              | Inr w3 \<Rightarrow>
                  (let w4 = UndoResolveStringModifications w3;
                       w5 = ((fst w4)\<lparr> rolling_back := False \<rparr>, snd w4)
                   in Inr [w0, w1, w2, w3, w4, w5]))))"

definition Rollback :: "Runtime \<Rightarrow> Transaction \<Rightarrow> fatal + Transaction \<times> effect list" where
  "Rollback rt t =
     (case Rollback_steps rt t of Inl e \<Rightarrow> Inl e | Inr steps \<Rightarrow> Inr (last steps))"

section \<open>Root visiting\<close>

text \<open>
  A visitor is given the address of a root and may store the root's new address there:
  it is a function from the old to the new identity. \<open>VisitRootIfNonNull\<close> leaves a
  null root alone.
\<close>

definition VisitRootIfNonNull :: "(obj \<Rightarrow> obj) \<Rightarrow> obj \<Rightarrow> obj" where
  "VisitRootIfNonNull visitor r = (if r \<noteq> nullptr then visitor r else r)"

fun ObjectLog_VisitRoots :: "(obj \<Rightarrow> obj) \<Rightarrow> ObjectLog \<Rightarrow> ObjectLog" where
  "ObjectLog_VisitRoots visitor [] = []"
| "ObjectLog_VisitRoots visitor ((off, field_value) # rest) =
     (off, if fv_kind field_value = kReference
           then field_value\<lparr> fv_value := VisitRootIfNonNull visitor (fv_value field_value) \<rparr>
           else field_value)
     # ObjectLog_VisitRoots visitor rest"

text \<open>
  The first loop of \<open>VisitObjectLogs\<close>: every log visits its reference values, every key is
  visited, and the keys that moved are collected in iteration order.
\<close>

fun VisitObjectLogs_visit ::
  "(obj \<Rightarrow> obj) \<Rightarrow> (obj \<times> ObjectLog) list \<Rightarrow> (obj \<times> ObjectLog) list \<times> (obj \<times> obj) list" where
  "VisitObjectLogs_visit visitor [] = ([], [])"
| "VisitObjectLogs_visit visitor ((old_root, log) # rest) =
     (case VisitObjectLogs_visit visitor rest of
        (logs', moving_roots) \<Rightarrow>
          ((old_root, ObjectLog_VisitRoots visitor log) # logs',
           (if visitor old_root \<noteq> old_root
            then (old_root, visitor old_root) # moving_roots else moving_roots)))"

text \<open>The second loop, for either collection: move each entry from its old to its new key.\<close>

fun update_moving_roots ::
  "(obj \<times> obj) list \<Rightarrow> (obj \<times> 'v) list \<Rightarrow> fatal + (obj \<times> 'v) list" where
  "update_moving_roots [] logs = Inr logs"
| "update_moving_roots ((old_root, new_root) # rest) logs =
     (case map_of logs old_root of
        None \<Rightarrow> Inl (CheckFailed ''old_root_it != logs_.end()'')
      | Some log \<Rightarrow>
          check (map_of logs new_root = None) ''logs_.find(new_root) == logs_.end()''
            (update_moving_roots rest (map_erase old_root (map_emplace new_root log logs))))"

definition VisitObjectLogs :: "(obj \<Rightarrow> obj) \<Rightarrow> Transaction \<Rightarrow> fatal + Transaction" where
  "VisitObjectLogs visitor t =
     (case VisitObjectLogs_visit visitor (object_logs t) of
        (logs', moving_roots) \<Rightarrow>
          (case update_moving_roots moving_roots logs' of
             Inl e \<Rightarrow> Inl e
           | Inr logs'' \<Rightarrow> Inr (t\<lparr> object_logs := logs'' \<rparr>)))"

fun VisitArrayLogs_visit ::
  "Runtime \<Rightarrow> (obj \<Rightarrow> obj) \<Rightarrow> (obj \<times> ArrayLog) list \<Rightarrow> fatal + (obj \<times> obj) list" where
  "VisitArrayLogs_visit rt visitor [] = Inr []"
| "VisitArrayLogs_visit rt visitor ((old_root, log) # rest) =
     check (\<not> IsObjectArray rt old_root) ''!old_root->IsObjectArray()''
       (case VisitArrayLogs_visit rt visitor rest of
          Inl e \<Rightarrow> Inl e
        | Inr moving_roots \<Rightarrow>
            Inr (if visitor old_root \<noteq> old_root
                 then (old_root, visitor old_root) # moving_roots else moving_roots))"

definition VisitArrayLogs :: "Runtime \<Rightarrow> (obj \<Rightarrow> obj) \<Rightarrow> Transaction \<Rightarrow> fatal + Transaction" where
  "VisitArrayLogs rt visitor t =
     (case VisitArrayLogs_visit rt visitor (array_logs t) of
        Inl e \<Rightarrow> Inl e
      | Inr moving_roots \<Rightarrow>
          (case update_moving_roots moving_roots (array_logs t) of
             Inl e \<Rightarrow> Inl e
           | Inr logs' \<Rightarrow> Inr (t\<lparr> array_logs := logs' \<rparr>)))"

definition VisitInternStringLogs :: "(obj \<Rightarrow> obj) \<Rightarrow> Transaction \<Rightarrow> Transaction" where
  "VisitInternStringLogs visitor t =
     t\<lparr> intern_string_logs :=
          map (\<lambda>log. log\<lparr> str := visitor (str log) \<rparr>) (intern_string_logs t) \<rparr>"

definition VisitResolveStringLogs :: "(obj \<Rightarrow> obj) \<Rightarrow> Transaction \<Rightarrow> Transaction" where
  "VisitResolveStringLogs visitor t =
     t\<lparr> resolve_string_logs :=
          map (\<lambda>log. log\<lparr> dex_cache := visitor (dex_cache log) \<rparr>) (resolve_string_logs t) \<rparr>"

definition VisitRoots :: "Runtime \<Rightarrow> (obj \<Rightarrow> obj) \<Rightarrow> Transaction \<Rightarrow> fatal + Transaction" where
  "VisitRoots rt visitor t =
     (case VisitObjectLogs visitor (t\<lparr> root := visitor (root t) \<rparr>) of
        Inl e \<Rightarrow> Inl e
      | Inr t1 \<Rightarrow>
          (case VisitArrayLogs rt visitor t1 of
             Inl e \<Rightarrow> Inl e
           | Inr t2 \<Rightarrow> Inr (VisitResolveStringLogs visitor (VisitInternStringLogs visitor t2))))"

section \<open>The interning table\<close>

text \<open>
  Modelled from the spec: the string-interning table (intern_table.h is not among the
  sources). The spec gives it a strong and a weak tier and the operations insert and
  remove of a string on either; a tier is the set of strings it holds.
\<close>

record InternTable =
  strong_interns :: "obj set"
  weak_interns :: "obj set"

fun apply_intern_op :: "InternTable \<Rightarrow> intern_op \<Rightarrow> InternTable" where
  "apply_intern_op tbl (RemoveStrongFromTransaction s) =
     tbl\<lparr> strong_interns := strong_interns tbl - {s} \<rparr>"
| "apply_intern_op tbl (RemoveWeakFromTransaction s) =
     tbl\<lparr> weak_interns := weak_interns tbl - {s} \<rparr>"
| "apply_intern_op tbl (InsertStrongFromTransaction s) =
     tbl\<lparr> strong_interns := insert s (strong_interns tbl) \<rparr>"
| "apply_intern_op tbl (InsertWeakFromTransaction s) =
     tbl\<lparr> weak_interns := insert s (weak_interns tbl) \<rparr>"

fun apply_effect :: "InternTable \<Rightarrow> effect \<Rightarrow> InternTable" where
  "apply_effect tbl (InternOp op) = apply_intern_op tbl op"
| "apply_effect tbl (FieldWrite w) = tbl"
| "apply_effect tbl (ArrayWrite w) = tbl"
| "apply_effect tbl (ClearString c i) = tbl"

section \<open>Vocabulary of the statements\<close>

text \<open>
  The seven \<open>RecordWriteField*\<close> functions as one, by the typed value they are given;
  \<open>SetField\<close> is the accessor of the object model that stores such a value, volatile or not.
\<close>

datatype field_arg =
    BooleanArg "8 word"
  | ByteArg "8 word"
  | CharArg "16 word"
  | ShortArg "16 word"
  | Bits32Arg "32 word"
  | Bits64Arg "64 word"
  | ReferenceArg obj

fun RecordWriteField ::
  "Runtime \<Rightarrow> obj \<Rightarrow> MemberOffset \<Rightarrow> field_arg \<Rightarrow> bool \<Rightarrow> Transaction \<Rightarrow> fatal + Transaction" where
  "RecordWriteField rt ob off (BooleanArg v) vol t = RecordWriteFieldBoolean rt ob off v vol t"
| "RecordWriteField rt ob off (ByteArg v) vol t = RecordWriteFieldByte rt ob off v vol t"
| "RecordWriteField rt ob off (CharArg v) vol t = RecordWriteFieldChar rt ob off v vol t"
| "RecordWriteField rt ob off (ShortArg v) vol t = RecordWriteFieldShort rt ob off v vol t"
| "RecordWriteField rt ob off (Bits32Arg v) vol t = RecordWriteField32 rt ob off v vol t"
| "RecordWriteField rt ob off (Bits64Arg v) vol t = RecordWriteField64 rt ob off v vol t"
| "RecordWriteField rt ob off (ReferenceArg v) vol t = RecordWriteFieldReference rt ob off v vol t"

fun field_arg_kind :: "field_arg \<Rightarrow> FieldValueKind" where
  "field_arg_kind (BooleanArg v) = kBoolean"
| "field_arg_kind (ByteArg v) = kByte"
| "field_arg_kind (CharArg v) = kChar"
| "field_arg_kind (ShortArg v) = kShort"
| "field_arg_kind (Bits32Arg v) = k32Bits"
| "field_arg_kind (Bits64Arg v) = k64Bits"
| "field_arg_kind (ReferenceArg v) = kReference"

text \<open>The raw 64-bit value under which a typed value is logged (the widening at the call
  of \<open>LogValue\<close>).\<close>

fun field_arg_raw :: "field_arg \<Rightarrow> 64 word" where
  "field_arg_raw (BooleanArg v) = ucast v"
| "field_arg_raw (ByteArg v) = scast v"
| "field_arg_raw (CharArg v) = ucast v"
| "field_arg_raw (ShortArg v) = scast v"
| "field_arg_raw (Bits32Arg v) = ucast v"
| "field_arg_raw (Bits64Arg v) = v"
| "field_arg_raw (ReferenceArg v) = v"

fun SetField :: "obj \<Rightarrow> MemberOffset \<Rightarrow> field_arg \<Rightarrow> bool \<Rightarrow> field_write" where
  "SetField ob off (BooleanArg v) vol =
     (if vol then SetFieldBooleanVolatile ob off v else SetFieldBoolean ob off v)"
| "SetField ob off (ByteArg v) vol =
     (if vol then SetFieldByteVolatile ob off v else SetFieldByte ob off v)"
| "SetField ob off (CharArg v) vol =
     (if vol then SetFieldCharVolatile ob off v else SetFieldChar ob off v)"
| "SetField ob off (ShortArg v) vol =
     (if vol then SetFieldShortVolatile ob off v else SetFieldShort ob off v)"
| "SetField ob off (Bits32Arg v) vol =
     (if vol then SetField32Volatile ob off v else SetField32 ob off v)"
| "SetField ob off (Bits64Arg v) vol =
     (if vol then SetField64Volatile ob off v else SetField64 ob off v)"
| "SetField ob off (ReferenceArg v) vol =
     (if vol then SetFieldObjectVolatile ob off v else SetFieldObject ob off v)"

text \<open>The log entry of a location, if the location was logged.\<close>

definition field_entry :: "Transaction \<Rightarrow> obj \<Rightarrow> MemberOffset \<Rightarrow> FieldValue option" where
  "field_entry t ob off =
     (case map_of (object_logs t) ob of None \<Rightarrow> None | Some log \<Rightarrow> map_of log off)"

definition array_entry :: "Transaction \<Rightarrow> obj \<Rightarrow> size_t \<Rightarrow> 64 word option" where
  "array_entry t array index =
     (case map_of (array_logs t) array of None \<Rightarrow> None | Some log \<Rightarrow> map_of log index)"

text \<open>A map holds a key once: the invariant of the four maps of a transaction.\<close>

definition logs_distinct :: "Transaction \<Rightarrow> bool" where
  "logs_distinct t =
     (distinct (map fst (object_logs t))
      \<and> list_all (\<lambda>entry. distinct (map fst (snd entry))) (object_logs t)
      \<and> distinct (map fst (array_logs t))
      \<and> list_all (\<lambda>entry. distinct (map fst (snd entry))) (array_logs t))"

text \<open>
  What \<open>RecordWriteArray\<close> asks of an array in a debug build, and that its component type
  is one of the eight primitive types: the arrays whose log can be undone.
\<close>

definition is_primitive_component :: "Primitive_Type \<Rightarrow> bool" where
  "is_primitive_component ty = (ty \<noteq> kPrimNot \<and> ty \<noteq> kPrimVoid)"

definition primitive_array :: "Runtime \<Rightarrow> obj \<Rightarrow> bool" where
  "primitive_array rt array =
     (array \<noteq> nullptr \<and> IsArrayInstance rt array \<and> \<not> IsObjectArray rt array
      \<and> is_primitive_component (ComponentPrimitiveType rt array))"

definition array_logs_undoable :: "Runtime \<Rightarrow> Transaction \<Rightarrow> bool" where
  "array_logs_undoable rt t = list_all (\<lambda>entry. primitive_array rt (fst entry)) (array_logs t)"

text \<open>
  The logged element indices are array indices: below \<open>2^31\<close>, so that the conversion to
  the accessor's \<open>int32_t\<close> keeps them apart.
\<close>

definition array_indices_fit :: "Transaction \<Rightarrow> bool" where
  "array_indices_fit t =
     list_all (\<lambda>entry. list_all (\<lambda>iv. fst iv < 2 ^ 31) (snd entry)) (array_logs t)"

text \<open>The two offsets that \<open>ObjectLog::Undo\<close> skips.\<close>

definition protected_slot :: "Runtime \<Rightarrow> obj \<Rightarrow> MemberOffset \<Rightarrow> bool" where
  "protected_slot rt ob off =
     (off = ClassOffset rt \<or> (IsArrayInstance rt ob \<and> off = LengthOffset rt))"

text \<open>
  The keys a visitor moves, each with its new identity, in iteration order; and a visitor
  under which the second loop cannot collide: no two keys get the same new identity, and
  a key that moves does not move onto a key of the collection.
\<close>

definition moving_roots :: "(obj \<Rightarrow> obj) \<Rightarrow> obj list \<Rightarrow> (obj \<times> obj) list" where
  "moving_roots visitor keys =
     filter (\<lambda>pair. snd pair \<noteq> fst pair) (map (\<lambda>k. (k, visitor k)) keys)"

definition moves_to_fresh :: "(obj \<Rightarrow> obj) \<Rightarrow> obj list \<Rightarrow> bool" where
  "moves_to_fresh visitor keys =
     (distinct (map visitor keys)
      \<and> list_all (\<lambda>k. visitor k = k \<or> visitor k \<notin> set keys) keys)"

section \<open>A small heap for concrete runs\<close>

text \<open>
  Addresses below \<open>0x1000\<close> lie in the boot image: \<open>0x100\<close> is the class of class
  objects, \<open>0x108\<close> the class of the other objects. Outside the image: the classes
  \<open>0x2000\<close> and \<open>0x2010\<close>, an instance \<open>0x3000\<close>, an int array \<open>0x3100\<close>, a float
  array \<open>0x3200\<close>, an object array \<open>0x3300\<close>, a string \<open>0x3400\<close> and a string cache
  \<open>0x3500\<close>. A debug build, in the AOT compiler, after the transaction was left.
\<close>

definition example_runtime :: Runtime where
  "example_runtime =
     \<lparr> kIsDebugBuild = True, IsAotCompiler = True, IsActiveTransaction = False,
       PendingException = False, InternTableLockHeld = True, GetInternTable = 0x500,
       ObjectIsInBootImageSpace = (\<lambda>ob. ob < 0x1000),
       BootImageSpacesEmpty = False,
       IsClass = (\<lambda>ob. ob = 0x100 \<or> ob = 0x108 \<or> ob = 0x2000 \<or> ob = 0x2010),
       GetClass = (\<lambda>ob. if ob = 0x100 \<or> ob = 0x108 \<or> ob = 0x2000 \<or> ob = 0x2010
                          then 0x100 else if ob = 0x3000 then 0x2000 else 0x108),
       CanReferenceInBootImageExtension = (\<lambda>klass. klass < 0x1000),
       IsArrayInstance = (\<lambda>ob. ob = 0x3100 \<or> ob = 0x3200 \<or> ob = 0x3300),
       IsObjectArray = (\<lambda>ob. ob = 0x3300),
       ComponentPrimitiveType =
         (\<lambda>ob. if ob = 0x3100 then kPrimInt else if ob = 0x3200 then kPrimFloat else kPrimNot),
       ClassOffset = 0, LengthOffset = 8,
       NumStringIds = (\<lambda>cache. 16) \<rparr>"

text \<open>A transaction that has logged the field \<open>12\<close> of the instance and the element
  \<open>3\<close> of the int array.\<close>

definition example_logged :: Transaction where
  "example_logged =
     (Transaction_init True 0x2000)
       \<lparr> object_logs :=
           [(0x3000, [(12, \<lparr> fv_value = 0, fv_kind = k32Bits, fv_is_volatile = False \<rparr>)])],
         array_logs := [(0x3100, [(3, 7)])] \<rparr>"

text \<open>A transaction that has logged the class slot of the instance, holding the class
  \<open>0x2010\<close>.\<close>

definition example_class_slot_logged :: Transaction where
  "example_class_slot_logged =
     (Transaction_init True 0x2000)
       \<lparr> object_logs :=
           [(0x3000, [(0, \<lparr> fv_value = 0x2010, fv_kind = kReference,
                            fv_is_volatile = False \<rparr>)])] \<rparr>"

text \<open>The same with a string entered in the strong table and a string-cache slot filled.\<close>

definition example_full :: Transaction where
  "example_full =
     example_logged
       \<lparr> intern_string_logs :=
           [\<lparr> str = 0x3400, string_kind = kStrongString, string_op = kInsert \<rparr>],
         resolve_string_logs := [\<lparr> dex_cache = 0x3500, string_idx = 2 \<rparr>] \<rparr>"

text \<open>
  A collector that moves the instance to \<open>0x4000\<close> and the int array to \<open>0x4100\<close>, and
  one that moves the instance onto the address \<open>0x3008\<close>; a transaction in which
  \<open>0x3008\<close> is a logged object too, with a reference to the instance among its values.
\<close>

definition example_visitor :: "obj \<Rightarrow> obj" where
  "example_visitor ob = (if ob = 0x3000 then 0x4000 else if ob = 0x3100 then 0x4100 else ob)"

definition colliding_visitor :: "obj \<Rightarrow> obj" where
  "colliding_visitor ob = (if ob = 0x3000 then 0x3008 else ob)"

definition example_two_objects :: Transaction where
  "example_two_objects =
     (Transaction_init True 0x2000)
       \<lparr> object_logs :=
           [(0x3000, [(12, \<lparr> fv_value = 0, fv_kind = k32Bits, fv_is_volatile = False \<rparr>)]),
            (0x3008, [(12, \<lparr> fv_value = 0x3000, fv_kind = kReference,
                            fv_is_volatile = False \<rparr>)])] \<rparr>"

section \<open>Abort\<close>

lemma Abort_when_aborted: "aborted t \<Longrightarrow> Abort m t = t"
  by (simp add: Abort_def)

lemma aborted_Abort: "aborted (Abort m t)"
  by (simp add: Abort_def)

lemma Abort_many_when_aborted: "aborted t \<Longrightarrow> foldl (\<lambda>t' m. Abort m t') t ms = t"
  by (induction ms) (simp_all add: Abort_when_aborted)

text \<open>
  C8. Abort is idempotent and the first message wins: on a transaction that is not yet
  aborted, \<open>Abort m1\<close> sets the flag and stores \<open>m1\<close>; a second \<open>Abort m2\<close>, and any
  further sequence \<open>later\<close> of aborts, leaves the whole transaction, so the flag and the
  message, as the first call left it.
\<close>

theorem Abort_first_message_wins:
  assumes "\<not> IsAborted t"
  shows "IsAborted (Abort m1 t) \<and> GetAbortMessage (Abort m1 t) = m1
         \<and> Abort m2 (Abort m1 t) = Abort m1 t
         \<and> foldl (\<lambda>t' m. Abort m t') (Abort m1 t) later = Abort m1 t"
proof -
  have "aborted (Abort m1 t)" by (rule aborted_Abort)
  then have "Abort m2 (Abort m1 t) = Abort m1 t"
    and "foldl (\<lambda>t' m. Abort m t') (Abort m1 t) later = Abort m1 t"
    by (rule Abort_when_aborted, rule Abort_many_when_aborted)
  moreover have "IsAborted (Abort m1 t) \<and> GetAbortMessage (Abort m1 t) = m1"
    using assms by (simp add: Abort_def IsAborted_def GetAbortMessage_def)
  ultimately show ?thesis by simp
qed

theorem Abort_first_message_wins_witness:
  "\<not> IsAborted (Transaction_init True 0x2000)
   \<and> IsAborted (Abort ''second'' (Abort ''first'' (Transaction_init True 0x2000)))
   \<and> GetAbortMessage (Abort ''second'' (Abort ''first'' (Transaction_init True 0x2000)))
       = ''first''"
proof -
  have h: "\<not> IsAborted (Transaction_init True 0x2000)"
    by (simp add: IsAborted_def Transaction_init_def)
  from Abort_first_message_wins [OF h, of "''first''" "''second''"] h show ?thesis by simp
qed

section \<open>Constraints\<close>

text \<open>
  C6. For a non-null object, \<open>WriteConstraint\<close> returns, and the write is blocked exactly
  when the object lies in the boot image space (whatever the mode) or the transaction is
  strict, the object is a class and it is not the root class. So an instance or an array
  outside the image is never blocked, and in non-strict mode nothing outside the image is.
\<close>

theorem WriteConstraint_blocked_iff:
  assumes "ob \<noteq> nullptr"
  shows "WriteConstraint rt t ob =
           Inr (ObjectIsInBootImageSpace rt ob \<or> (IsStrict t \<and> IsClass rt ob \<and> ob \<noteq> root t))"
  using assms by (simp add: WriteConstraint_def)

theorem WriteConstraint_blocked_iff_witness:
  "(0x100 :: obj) \<noteq> nullptr
   \<and> WriteConstraint example_runtime (Transaction_init True 0x2000) 0x100 = Inr True
   \<and> WriteConstraint example_runtime (Transaction_init False 0x2000) 0x100 = Inr True
   \<and> WriteConstraint example_runtime (Transaction_init True 0x2000) 0x2010 = Inr True
   \<and> WriteConstraint example_runtime (Transaction_init True 0x2000) 0x2000 = Inr False
   \<and> WriteConstraint example_runtime (Transaction_init True 0x2000) 0x3000 = Inr False
   \<and> WriteConstraint example_runtime (Transaction_init True 0x2000) 0x3100 = Inr False
   \<and> WriteConstraint example_runtime (Transaction_init False 0x2000) 0x2010 = Inr False"
proof -
  have n: "(0x100 :: obj) \<noteq> nullptr" "(0x2010 :: obj) \<noteq> nullptr" "(0x2000 :: obj) \<noteq> nullptr"
    "(0x3000 :: obj) \<noteq> nullptr" "(0x3100 :: obj) \<noteq> nullptr"
    by (simp_all add: nullptr_def)
  show ?thesis
    using n(1)
      WriteConstraint_blocked_iff [OF n(1), of example_runtime "Transaction_init True 0x2000"]
      WriteConstraint_blocked_iff [OF n(1), of example_runtime "Transaction_init False 0x2000"]
      WriteConstraint_blocked_iff [OF n(2), of example_runtime "Transaction_init True 0x2000"]
      WriteConstraint_blocked_iff [OF n(3), of example_runtime "Transaction_init True 0x2000"]
      WriteConstraint_blocked_iff [OF n(4), of example_runtime "Transaction_init True 0x2000"]
      WriteConstraint_blocked_iff [OF n(5), of example_runtime "Transaction_init True 0x2000"]
      WriteConstraint_blocked_iff [OF n(2), of example_runtime "Transaction_init False 0x2000"]
    by (simp add: example_runtime_def Transaction_init_def IsStrict_def)
qed

text \<open>
  C7, as stated, takes the class of the value (\<open>GetClass\<close>) for the class that is tested.
  The class object \<open>0x2010\<close> lies outside the image and may not be referenced from the
  extension; its own class \<open>0x100\<close> may. In non-strict mode with a boot image the store
  of \<open>0x2010\<close> is blocked, although the class of the value is permitted.
\<close>

theorem WriteValueConstraint_value_class_counterexample:
  "(0x2010 :: obj) \<noteq> nullptr
   \<and> \<not> IsStrict (Transaction_init False 0x2000)
   \<and> \<not> BootImageSpacesEmpty example_runtime
   \<and> CanReferenceInBootImageExtension example_runtime (GetClass example_runtime 0x2010)
   \<and> WriteValueConstraint example_runtime (Transaction_init False 0x2000) 0x2010 = True"
  by (simp add: WriteValueConstraint_def example_runtime_def Transaction_init_def IsStrict_def
      nullptr_def)

text \<open>
  C7, amended. A store is blocked exactly when the value is not null, the transaction is
  not strict, the heap has boot image spaces, and the class tested may not be referenced
  from the extension, where the class tested is the value itself when the value is a
  class object, and the class of the value otherwise.
\<close>

theorem WriteValueConstraint_blocked_iff:
  "WriteValueConstraint rt t val =
     (val \<noteq> nullptr \<and> \<not> IsStrict t \<and> \<not> BootImageSpacesEmpty rt
      \<and> \<not> CanReferenceInBootImageExtension rt (if IsClass rt val then val else GetClass rt val))"
  by (simp add: WriteValueConstraint_def Let_def)

section \<open>A fresh transaction\<close>

lemma Rollback_no_logs:
  assumes "\<not> IsActiveTransaction rt" "\<not> PendingException rt"
    "object_logs t = []" "array_logs t = []" "intern_string_logs t = []"
    "resolve_string_logs t = []"
  shows "Rollback rt t = Inr (t\<lparr> rolling_back := False \<rparr>, [])"
  using assms
  by (simp add: Rollback_def Rollback_steps_def Let_def dcheck_def check_def UndoObjectModifications_def
      UndoArrayModifications_def UndoInternStringTableModifications_def
      UndoResolveStringModifications_def)

text \<open>
  C10. In the AOT compiler the constructor returns a transaction that is not aborted and
  not rolling back, with the empty message, no reentrancy-guard reason and four empty
  collections; it keeps the mode and the root it was given. Rolled back (outside an
  active transaction, with no exception pending) it makes no call at all and is left as
  it was.
\<close>

theorem Transaction_new_fresh:
  assumes "IsAotCompiler rt" "\<not> IsActiveTransaction rt" "\<not> PendingException rt"
  shows "\<exists>t. Transaction_new rt s r = Inr t
           \<and> IsAborted t = False \<and> IsRollingBack t = False \<and> GetAbortMessage t = []
           \<and> assert_no_new_records_reason t = None
           \<and> object_logs t = [] \<and> array_logs t = []
           \<and> intern_string_logs t = [] \<and> resolve_string_logs t = []
           \<and> IsStrict t = s \<and> root t = r
           \<and> Rollback rt t = Inr (t, [])"
proof -
  let ?t = "Transaction_init s r"
  have new: "Transaction_new rt s r = Inr ?t"
    using assms(1) by (simp add: Transaction_new_def)
  have fields: "IsAborted ?t = False" "IsRollingBack ?t = False" "GetAbortMessage ?t = []"
    "assert_no_new_records_reason ?t = None" "object_logs ?t = []" "array_logs ?t = []"
    "intern_string_logs ?t = []" "resolve_string_logs ?t = []" "IsStrict ?t = s" "root ?t = r"
    by (simp_all add: Transaction_init_def IsAborted_def IsRollingBack_def GetAbortMessage_def
        IsStrict_def)
  have "Rollback rt ?t = Inr (?t\<lparr> rolling_back := False \<rparr>, [])"
    using assms(2,3) fields(5-8) by (rule Rollback_no_logs)
  moreover have "?t\<lparr> rolling_back := False \<rparr> = ?t"
    by (simp add: Transaction_init_def)
  ultimately have "Rollback rt ?t = Inr (?t, [])" by simp
  with new fields show ?thesis by blast
qed

theorem Transaction_new_fresh_witness:
  "IsAotCompiler example_runtime \<and> \<not> IsActiveTransaction example_runtime
   \<and> \<not> PendingException example_runtime
   \<and> (\<exists>t. Transaction_new example_runtime True 0x2000 = Inr t
           \<and> IsAborted t = False \<and> GetAbortMessage t = []
           \<and> Rollback example_runtime t = Inr (t, []))"
proof -
  have h: "IsAotCompiler example_runtime" "\<not> IsActiveTransaction example_runtime"
    "\<not> PendingException example_runtime"
    by (simp_all add: example_runtime_def)
  from Transaction_new_fresh [OF h, of True "0x2000"] h show ?thesis by blast
qed

section \<open>Ordered maps\<close>

lemma map_emplace_split:
  "map_of m k = None \<Longrightarrow> \<exists>xs ys. m = xs @ ys \<and> map_emplace k v m = xs @ (k, v) # ys"
proof (induction m)
  case Nil
  then show ?case by simp
next
  case (Cons kv m)
  obtain k' v' where kv: "kv = (k', v')" by (cases kv)
  from Cons.prems kv have ne: "k \<noteq> k'" and absent: "map_of m k = None"
    by (auto split: if_splits)
  show ?case
  proof (cases "k < k'")
    case True
    with ne kv have "kv # m = [] @ (kv # m) \<and> map_emplace k v (kv # m) = [] @ (k, v) # (kv # m)"
      by simp
    then show ?thesis by blast
  next
    case False
    from Cons.IH [OF absent] obtain xs ys where
      "m = xs @ ys" "map_emplace k v m = xs @ (k, v) # ys" by blast
    with ne kv False have
      "kv # m = (kv # xs) @ ys \<and> map_emplace k v (kv # m) = (kv # xs) @ (k, v) # ys"
      by simp
    then show ?thesis by blast
  qed
qed

lemma map_of_map_emplace:
  assumes "map_of m k = None"
  shows "map_of (map_emplace k v m) = (map_of m)(k \<mapsto> v)"
proof -
  from map_emplace_split [OF assms, of v] obtain xs ys where
    m: "m = xs @ ys" and e: "map_emplace k v m = xs @ (k, v) # ys" by blast
  from assms m have "map_of xs k = None" by (simp add: map_add_def split: option.splits)
  then show ?thesis
    unfolding e by (auto simp: m map_add_def fun_eq_iff split: option.splits)
qed

lemma keys_map_emplace:
  assumes "map_of m k = None"
  shows "set (map fst (map_emplace k v m)) = insert k (set (map fst m))"
proof -
  from map_emplace_split [OF assms, of v] obtain xs ys where
    "m = xs @ ys" "map_emplace k v m = xs @ (k, v) # ys" by blast
  then show ?thesis by auto
qed

lemma distinct_map_emplace:
  assumes "map_of m k = None" "distinct (map fst m)"
  shows "distinct (map fst (map_emplace k v m))"
proof -
  from map_emplace_split [OF assms(1), of v] obtain xs ys where
    m: "m = xs @ ys" and e: "map_emplace k v m = xs @ (k, v) # ys" by blast
  from assms(1) have "k \<notin> fst ` set m" by (simp add: map_of_eq_None_iff)
  with assms(2) show ?thesis unfolding e by (auto simp: m)
qed

lemma list_all_map_emplace:
  assumes "map_of m k = None" "list_all P m" "P (k, v)"
  shows "list_all P (map_emplace k v m)"
proof -
  from map_emplace_split [OF assms(1), of v] obtain xs ys where
    m: "m = xs @ ys" and e: "map_emplace k v m = xs @ (k, v) # ys" by blast
  from assms(2,3) show ?thesis unfolding e by (simp add: m)
qed

lemma map_of_map_update:
  "map_of m k = Some v0 \<Longrightarrow> map_of (map_update k v m) = (map_of m)(k \<mapsto> v)"
  by (induction m) (auto simp: fun_eq_iff split: if_splits)

lemma keys_map_update: "map fst (map_update k v m) = map fst m"
  by (induction m) auto

lemma map_update_same: "map_of m k = Some v \<Longrightarrow> map_update k v m = m"
  by (induction m) (auto split: if_splits)

lemma list_all_map_update:
  "list_all P m \<Longrightarrow> P (k, v) \<Longrightarrow> list_all P (map_update k v m)"
  by (induction m) auto

lemma map_of_map_erase: "map_of (map_erase k m) = (map_of m)(k := None)"
  by (induction m) (auto simp: map_erase_def fun_eq_iff)

lemma keys_map_erase: "set (map fst (map_erase k m)) = set (map fst m) - {k}"
  by (auto simp: map_erase_def)

lemma distinct_map_erase: "distinct (map fst m) \<Longrightarrow> distinct (map fst (map_erase k m))"
  by (simp add: map_erase_def distinct_map_filter)

lemma list_all_map_erase: "list_all P m \<Longrightarrow> list_all P (map_erase k m)"
  by (simp add: map_erase_def list_all_iff)

section \<open>Logging a value\<close>

lemma LogValue_present: "map_of log off = Some fv \<Longrightarrow> LogValue kind off v vol log = log"
  by (simp add: LogValue_def)

lemma map_of_LogValue_absent:
  "map_of log off = None \<Longrightarrow>
   map_of (LogValue kind off v vol log) =
     (map_of log)(off \<mapsto> \<lparr> fv_value = v, fv_kind = kind, fv_is_volatile = vol \<rparr>)"
  by (simp add: LogValue_def map_of_map_emplace)

lemma distinct_LogValue:
  "distinct (map fst log) \<Longrightarrow> distinct (map fst (LogValue kind off v vol log))"
  by (cases "map_of log off") (simp_all add: LogValue_def distinct_map_emplace)

lemma LogValue_idem:
  "LogValue kind2 off v2 vol2 (LogValue kind1 off v1 vol1 log) = LogValue kind1 off v1 vol1 log"
proof (cases "map_of log off")
  case None
  then have "map_of (LogValue kind1 off v1 vol1 log) off
      = Some \<lparr> fv_value = v1, fv_kind = kind1, fv_is_volatile = vol1 \<rparr>"
    by (simp add: map_of_LogValue_absent)
  then show ?thesis by (rule LogValue_present)
next
  case (Some fv)
  then show ?thesis by (simp add: LogValue_present)
qed

lemma ArrayLog_LogValue_present:
  "map_of log i = Some v0 \<Longrightarrow> ArrayLog_LogValue i v log = log"
  by (simp add: ArrayLog_LogValue_def)

lemma map_of_ArrayLog_LogValue_absent:
  "map_of log i = None \<Longrightarrow> map_of (ArrayLog_LogValue i v log) = (map_of log)(i \<mapsto> v)"
  by (simp add: ArrayLog_LogValue_def map_of_map_emplace)

lemma distinct_ArrayLog_LogValue:
  "distinct (map fst log) \<Longrightarrow> distinct (map fst (ArrayLog_LogValue i v log))"
  by (cases "map_of log i") (simp_all add: ArrayLog_LogValue_def distinct_map_emplace)

section \<open>Recording a field write\<close>

lemma ucast_ucast_8_64: "ucast (ucast (v :: 8 word) :: 64 word) = v"
  by (simp add: ucast_up_ucast_id is_up)

lemma ucast_scast_8_64: "ucast (scast (v :: 8 word) :: 64 word) = v"
  by (rule bit_word_eqI) (auto simp: bit_simps)

lemma ucast_ucast_16_64: "ucast (ucast (v :: 16 word) :: 64 word) = v"
  by (simp add: ucast_up_ucast_id is_up)

lemma ucast_scast_16_64: "ucast (scast (v :: 16 word) :: 64 word) = v"
  by (rule bit_word_eqI) (auto simp: bit_simps)

lemma ucast_ucast_32_64: "ucast (ucast (v :: 32 word) :: 64 word) = v"
  by (simp add: ucast_up_ucast_id is_up)

lemma UndoFieldWrite_logged:
  "UndoFieldWrite ob off
     \<lparr> fv_value = field_arg_raw x, fv_kind = field_arg_kind x, fv_is_volatile = vol \<rparr>
   = SetField ob off x vol"
  by (cases x)
    (simp_all add: UndoFieldWrite_def ucast_ucast_8_64 ucast_scast_8_64 ucast_ucast_16_64
      ucast_scast_16_64 ucast_ucast_32_64)

lemma field_write_target_UndoFieldWrite:
  "field_write_target (UndoFieldWrite ob off fv) = (ob, off)"
  by (cases "fv_kind fv") (simp_all add: UndoFieldWrite_def)

lemma RecordWriteField_eq:
  "RecordWriteField rt ob off x vol t =
     dcheck rt (ob \<noteq> nullptr) ''obj != nullptr''
      (dcheck rt (assert_no_new_records_reason t = None) ''assert_no_new_records_reason_ == nullptr''
        (Inr (object_logs_subscript ob
               (LogValue (field_arg_kind x) off (field_arg_raw x) vol) t)))"
proof (cases x)
  case (BooleanArg v)
  have "LogBooleanValue off v vol = LogValue kBoolean off (ucast v) vol"
    by (rule ext) (simp add: LogBooleanValue_def)
  with BooleanArg show ?thesis by (simp add: RecordWriteFieldBoolean_def)
next
  case (ByteArg v)
  have "LogByteValue off v vol = LogValue kByte off (scast v) vol"
    by (rule ext) (simp add: LogByteValue_def)
  with ByteArg show ?thesis by (simp add: RecordWriteFieldByte_def)
next
  case (CharArg v)
  have "LogCharValue off v vol = LogValue kChar off (ucast v) vol"
    by (rule ext) (simp add: LogCharValue_def)
  with CharArg show ?thesis by (simp add: RecordWriteFieldChar_def)
next
  case (ShortArg v)
  have "LogShortValue off v vol = LogValue kShort off (scast v) vol"
    by (rule ext) (simp add: LogShortValue_def)
  with ShortArg show ?thesis by (simp add: RecordWriteFieldShort_def)
next
  case (Bits32Arg v)
  have "Log32BitsValue off v vol = LogValue k32Bits off (ucast v) vol"
    by (rule ext) (simp add: Log32BitsValue_def)
  with Bits32Arg show ?thesis by (simp add: RecordWriteField32_def)
next
  case (Bits64Arg v)
  have "Log64BitsValue off v vol = LogValue k64Bits off v vol"
    by (rule ext) (simp add: Log64BitsValue_def)
  with Bits64Arg show ?thesis by (simp add: RecordWriteField64_def)
next
  case (ReferenceArg v)
  have "LogReferenceValue off v vol = LogValue kReference off v vol"
    by (rule ext) (simp add: LogReferenceValue_def)
  with ReferenceArg show ?thesis by (simp add: RecordWriteFieldReference_def)
qed

lemma RecordWriteField_ok:
  assumes "ob \<noteq> nullptr" "assert_no_new_records_reason t = None"
  shows "RecordWriteField rt ob off x vol t =
           Inr (object_logs_subscript ob (LogValue (field_arg_kind x) off (field_arg_raw x) vol) t)"
  using assms by (simp add: RecordWriteField_eq dcheck_def)

lemma list_all_map_of: "list_all P m \<Longrightarrow> map_of m k = Some v \<Longrightarrow> P (k, v)"
  by (auto simp: list_all_iff dest: map_of_SomeD)

lemma object_logs_subscript_unchanged:
  assumes "map_of (object_logs t) ob = Some log" "f log = log"
  shows "object_logs_subscript ob f t = t"
  using assms by (simp add: object_logs_subscript_def map_update_same)

lemma map_of_object_logs_subscript:
  "map_of (object_logs (object_logs_subscript ob f t)) =
     (map_of (object_logs t))
       (ob \<mapsto> f (case map_of (object_logs t) ob of None \<Rightarrow> [] | Some log \<Rightarrow> log))"
  by (cases "map_of (object_logs t) ob")
    (simp_all add: object_logs_subscript_def map_of_map_emplace map_of_map_update)

lemma object_logs_subscript_others:
  "array_logs (object_logs_subscript ob f t) = array_logs t"
  "intern_string_logs (object_logs_subscript ob f t) = intern_string_logs t"
  "resolve_string_logs (object_logs_subscript ob f t) = resolve_string_logs t"
  "assert_no_new_records_reason (object_logs_subscript ob f t) = assert_no_new_records_reason t"
  by (cases "map_of (object_logs t) ob"; simp add: object_logs_subscript_def)+

lemma logs_distinct_object_logs_subscript:
  assumes "logs_distinct t" "\<And>log. distinct (map fst log) \<Longrightarrow> distinct (map fst (f log))"
  shows "logs_distinct (object_logs_subscript ob f t)"
proof (cases "map_of (object_logs t) ob")
  case None
  have "distinct (map fst (f []))" using assms(2) [of "[]"] by simp
  with assms(1) None show ?thesis
    by (simp add: logs_distinct_def object_logs_subscript_def distinct_map_emplace
        list_all_map_emplace)
next
  case (Some log)
  from assms(1) have "list_all (\<lambda>entry. distinct (map fst (snd entry))) (object_logs t)"
    by (simp add: logs_distinct_def)
  from list_all_map_of [OF this Some] have "distinct (map fst log)" by simp
  then have "distinct (map fst (f log))" by (rule assms(2))
  with assms(1) Some show ?thesis
    by (simp add: logs_distinct_def object_logs_subscript_def keys_map_update
        list_all_map_update)
qed

lemma field_entry_LogValue_absent:
  assumes "field_entry t ob off = None"
  shows "field_entry (object_logs_subscript ob (LogValue kind off v vol) t) ob off
         = Some \<lparr> fv_value = v, fv_kind = kind, fv_is_volatile = vol \<rparr>"
proof -
  let ?log = "case map_of (object_logs t) ob of None \<Rightarrow> [] | Some log \<Rightarrow> log"
  from assms have "map_of ?log off = None"
    by (simp add: field_entry_def split: option.splits)
  then show ?thesis
    by (simp add: field_entry_def map_of_object_logs_subscript map_of_LogValue_absent)
qed

lemma object_logs_subscript_LogValue_present:
  assumes "field_entry t ob off = Some fv"
  shows "object_logs_subscript ob (LogValue kind off v vol) t = t"
proof -
  from assms obtain log where log: "map_of (object_logs t) ob = Some log"
    and "map_of log off = Some fv"
    by (auto simp: field_entry_def split: option.splits)
  then have "LogValue kind off v vol log = log" by (simp add: LogValue_present)
  with log show ?thesis by (rule object_logs_subscript_unchanged)
qed

section \<open>Recording an array write\<close>

lemma RecordWriteArray_ok:
  assumes "primitive_array rt a" "assert_no_new_records_reason t = None"
  shows "RecordWriteArray rt a i v t =
           Inr (case map_of (array_logs t) a of
                  None \<Rightarrow> t\<lparr> array_logs := map_emplace a (ArrayLog_LogValue i v []) (array_logs t) \<rparr>
                | Some log \<Rightarrow>
                    t\<lparr> array_logs := map_update a (ArrayLog_LogValue i v log) (array_logs t) \<rparr>)"
  using assms by (simp add: RecordWriteArray_def dcheck_def primitive_array_def)

lemma RecordWriteArray_present:
  assumes "primitive_array rt a" "assert_no_new_records_reason t = None"
    "array_entry t a i = Some v0"
  shows "RecordWriteArray rt a i v t = Inr t"
proof -
  from assms(3) obtain log where log: "map_of (array_logs t) a = Some log"
    and "map_of log i = Some v0"
    by (auto simp: array_entry_def split: option.splits)
  then have "ArrayLog_LogValue i v log = log" by (simp add: ArrayLog_LogValue_present)
  with log show ?thesis
    by (simp add: RecordWriteArray_ok [OF assms(1,2)] map_update_same)
qed

lemma RecordWriteArray_absent:
  assumes "primitive_array rt a" "assert_no_new_records_reason t = None"
    "array_entry t a i = None" "logs_distinct t" "array_logs_undoable rt t"
  shows "\<exists>t1. RecordWriteArray rt a i v t = Inr t1 \<and> array_entry t1 a i = Some v
           \<and> logs_distinct t1 \<and> array_logs_undoable rt t1
           \<and> object_logs t1 = object_logs t
           \<and> assert_no_new_records_reason t1 = None"
proof (cases "map_of (array_logs t) a")
  case None
  let ?t1 = "t\<lparr> array_logs := map_emplace a (ArrayLog_LogValue i v []) (array_logs t) \<rparr>"
  have r: "RecordWriteArray rt a i v t = Inr ?t1"
    using None by (simp add: RecordWriteArray_ok [OF assms(1,2)])
  have e: "array_entry ?t1 a i = Some v"
    using None by (simp add: array_entry_def map_of_map_emplace map_of_ArrayLog_LogValue_absent)
  have d: "logs_distinct ?t1"
    using assms(4) None
    by (simp add: logs_distinct_def distinct_map_emplace list_all_map_emplace
        distinct_ArrayLog_LogValue)
  have u: "array_logs_undoable rt ?t1"
    using assms(1,5) None by (simp add: array_logs_undoable_def list_all_map_emplace)
  from r e d u assms(2) show ?thesis by simp
next
  case (Some log)
  let ?t1 = "t\<lparr> array_logs := map_update a (ArrayLog_LogValue i v log) (array_logs t) \<rparr>"
  have r: "RecordWriteArray rt a i v t = Inr ?t1"
    using Some by (simp add: RecordWriteArray_ok [OF assms(1,2)])
  from assms(3) Some have absent: "map_of log i = None" by (simp add: array_entry_def)
  have e: "array_entry ?t1 a i = Some v"
    using Some absent
    by (simp add: array_entry_def map_of_map_update map_of_ArrayLog_LogValue_absent)
  from assms(4) have "list_all (\<lambda>entry. distinct (map fst (snd entry))) (array_logs t)"
    by (simp add: logs_distinct_def)
  from list_all_map_of [OF this Some] have "distinct (map fst log)" by simp
  then have "distinct (map fst (ArrayLog_LogValue i v log))" by (rule distinct_ArrayLog_LogValue)
  with assms(4) have d: "logs_distinct ?t1"
    by (simp add: logs_distinct_def keys_map_update list_all_map_update)
  have u: "array_logs_undoable rt ?t1"
    using assms(1,5) by (simp add: array_logs_undoable_def list_all_map_update)
  from r e d u assms(2) show ?thesis by simp
qed

section \<open>What an undo writes\<close>

lemma ObjectLog_Undo_eq:
  "ObjectLog_Undo rt ob log =
     map (\<lambda>entry. FieldWrite (UndoFieldWrite ob (fst entry) (snd entry)))
       (filter (\<lambda>entry. \<not> protected_slot rt ob (fst entry)) log)"
  by (induction log) (auto simp: protected_slot_def)

lemma filter_writes_field_ObjectLog_Undo:
  assumes "distinct (map fst log)"
  shows "filter (writes_field ob' off) (ObjectLog_Undo rt ob log) =
           (if ob' = ob \<and> \<not> protected_slot rt ob off
            then (case map_of log off of
                    None \<Rightarrow> []
                  | Some fv \<Rightarrow> [FieldWrite (UndoFieldWrite ob off fv)])
            else [])"
  using assms
proof (induction log)
  case Nil
  then show ?case by simp
next
  case (Cons entry log)
  obtain off' fv' where entry: "entry = (off', fv')" by (cases entry)
  from Cons.prems entry have absent: "map_of log off' = None" and d: "distinct (map fst log)"
    by (auto simp: map_of_eq_None_iff)
  from Cons.IH [OF d] absent entry show ?case
    by (auto simp: ObjectLog_Undo_eq field_write_target_UndoFieldWrite)
qed

lemma filter_writes_field_UndoObjectLogs:
  assumes "distinct (map fst logs)" "list_all (\<lambda>entry. distinct (map fst (snd entry))) logs"
  shows "filter (writes_field ob off) (UndoObjectLogs rt logs) =
           (case map_of logs ob of
              None \<Rightarrow> []
            | Some log \<Rightarrow>
                if protected_slot rt ob off then []
                else (case map_of log off of
                        None \<Rightarrow> []
                      | Some fv \<Rightarrow> [FieldWrite (UndoFieldWrite ob off fv)]))"
  using assms
proof (induction logs)
  case Nil
  then show ?case by simp
next
  case (Cons entry logs)
  obtain ob' log' where entry: "entry = (ob', log')" by (cases entry)
  from Cons.prems entry have absent: "map_of logs ob' = None"
    and d: "distinct (map fst logs)" "distinct (map fst log')"
    and a: "list_all (\<lambda>entry. distinct (map fst (snd entry))) logs"
    by (auto simp: map_of_eq_None_iff)
  from Cons.IH [OF d(1) a] absent entry show ?case
    by (auto simp: filter_writes_field_ObjectLog_Undo [OF d(2)])
qed

lemma list_all_FieldWrite_UndoObjectLogs: "list_all is_FieldWrite (UndoObjectLogs rt logs)"
  by (induction logs) (auto simp: ObjectLog_Undo_eq list_all_iff)

lemma ucast_index_eq:
  fixes i j :: size_t
  assumes "i < 2 ^ 31" "j < 2 ^ 31"
  shows "((ucast i :: int32_t) = ucast j) = (i = j)"
proof
  assume "(ucast i :: int32_t) = ucast j"
  then have "unat (ucast i :: int32_t) = unat (ucast j :: int32_t)" by simp
  then have "unat i mod 2 ^ 32 = unat j mod 2 ^ 32" by (simp add: unsigned_ucast_eq take_bit_eq_mod)
  moreover from assms have "unat i < 2 ^ 31" "unat j < 2 ^ 31"
    by (simp_all add: word_less_nat_alt)
  ultimately have "unat i = unat j" by simp
  then show "i = j" by (simp add: word_unat_eq_iff)
qed simp

lemma UndoArrayWrite_ok:
  assumes "is_primitive_component ty"
  shows "\<exists>w. UndoArrayWrite a ty i v = Inr w \<and> array_write_target w = (a, ucast i)"
  using assms by (cases ty) (simp_all add: UndoArrayWrite_def is_primitive_component_def)

text \<open>Two logged indices that differ by \<open>2^32\<close> are undone at the same element, hence
  the bound on the indices in what follows.\<close>

lemma UndoArrayWrite_index_narrows:
  "UndoArrayWrite a kPrimInt 0x100000003 v = UndoArrayWrite a kPrimInt 3 v"
  by (simp add: UndoArrayWrite_def)

lemma UndoArrayWrites_ok:
  assumes "is_primitive_component ty"
  shows "\<exists>ws. UndoArrayWrites a ty log = Inr ws \<and> list_all is_ArrayWrite ws
           \<and> length ws = length log
           \<and> (a' \<noteq> a \<longrightarrow> filter (writes_element a' j) ws = [])
           \<and> (distinct (map fst log) \<and> list_all (\<lambda>entry. fst entry < 2 ^ 31) log
                \<and> i < 2 ^ 31 \<longrightarrow>
                filter (writes_element a (ucast i)) ws =
                  (case map_of log i of
                     None \<Rightarrow> []
                   | Some v \<Rightarrow>
                       (case UndoArrayWrite a ty i v of
                          Inl e \<Rightarrow> [] | Inr w \<Rightarrow> [ArrayWrite w])))"
proof (induction log)
  case Nil
  then show ?case by simp
next
  case (Cons entry log)
  obtain k v where entry: "entry = (k, v)" by (cases entry)
  from UndoArrayWrite_ok [OF assms, of a k v] obtain w where
    w: "UndoArrayWrite a ty k v = Inr w" "array_write_target w = (a, ucast k)" by blast
  from Cons.IH obtain ws where ws: "UndoArrayWrites a ty log = Inr ws"
    "list_all is_ArrayWrite ws" "length ws = length log"
    "a' \<noteq> a \<longrightarrow> filter (writes_element a' j) ws = []"
    "distinct (map fst log) \<and> list_all (\<lambda>entry. fst entry < 2 ^ 31) log \<and> i < 2 ^ 31 \<longrightarrow>
       filter (writes_element a (ucast i)) ws =
         (case map_of log i of
            None \<Rightarrow> []
          | Some v \<Rightarrow>
              (case UndoArrayWrite a ty i v of Inl e \<Rightarrow> [] | Inr w \<Rightarrow> [ArrayWrite w]))"
    by blast
  have r: "UndoArrayWrites a ty (entry # log) = Inr (ArrayWrite w # ws)"
    using entry w(1) ws(1) by simp
  have f1: "filter (writes_element a' j) (ArrayWrite w # ws) = []" if "a' \<noteq> a"
    using that ws(4) w(2) by simp
  have f2: "filter (writes_element a (ucast i)) (ArrayWrite w # ws) =
         (case map_of (entry # log) i of
            None \<Rightarrow> []
          | Some v \<Rightarrow>
              (case UndoArrayWrite a ty i v of Inl e \<Rightarrow> [] | Inr w \<Rightarrow> [ArrayWrite w]))"
    if d: "distinct (map fst (entry # log))
           \<and> list_all (\<lambda>entry. fst entry < 2 ^ 31) (entry # log) \<and> i < 2 ^ 31"
  proof -
    from d entry have absent: "map_of log k = None"
      and d': "distinct (map fst log) \<and> list_all (\<lambda>entry. fst entry < 2 ^ 31) log
               \<and> i < 2 ^ 31"
      and k: "k < 2 ^ 31" and i: "i < 2 ^ 31"
      by (auto simp: map_of_eq_None_iff)
    note eq = ucast_index_eq [OF k i] ucast_index_eq [OF i k]
    from ws(5) d' have rest: "filter (writes_element a (ucast i)) ws =
         (case map_of log i of
            None \<Rightarrow> []
          | Some v \<Rightarrow>
              (case UndoArrayWrite a ty i v of Inl e \<Rightarrow> [] | Inr w \<Rightarrow> [ArrayWrite w]))"
      by simp
    show ?thesis
    proof (cases "i = k")
      case True
      with rest absent entry w show ?thesis by simp
    next
      case False
      with rest entry w eq show ?thesis by simp
    qed
  qed
  from r ws(2,3) f1 f2 show ?case by simp
qed

lemma ArrayLog_Undo_ok:
  assumes "primitive_array rt a"
  shows "\<exists>ws. ArrayLog_Undo rt a log = Inr ws \<and> list_all is_ArrayWrite ws
           \<and> (a' \<noteq> a \<longrightarrow> filter (writes_element a' j) ws = [])
           \<and> (distinct (map fst log) \<and> list_all (\<lambda>entry. fst entry < 2 ^ 31) log
                \<and> i < 2 ^ 31 \<longrightarrow>
                filter (writes_element a (ucast i)) ws =
                  (case map_of log i of
                     None \<Rightarrow> []
                   | Some v \<Rightarrow>
                       (case UndoArrayWrite a (ComponentPrimitiveType rt a) i v of
                          Inl e \<Rightarrow> [] | Inr w \<Rightarrow> [ArrayWrite w])))"
proof -
  from assms have p: "is_primitive_component (ComponentPrimitiveType rt a)"
    and eq: "ArrayLog_Undo rt a log = UndoArrayWrites a (ComponentPrimitiveType rt a) log"
    by (simp_all add: primitive_array_def ArrayLog_Undo_def dcheck_def)
  from UndoArrayWrites_ok [OF p, of a log a' j i] show ?thesis unfolding eq by blast
qed

lemma UndoArrayLogs_ok:
  assumes "list_all (\<lambda>entry. primitive_array rt (fst entry)) logs"
  shows "\<exists>ws. UndoArrayLogs rt logs = Inr ws \<and> list_all is_ArrayWrite ws
           \<and> (distinct (map fst logs)
                \<and> list_all (\<lambda>entry. distinct (map fst (snd entry))) logs
                \<and> list_all (\<lambda>entry. list_all (\<lambda>iv. fst iv < 2 ^ 31) (snd entry)) logs
                \<and> i < 2 ^ 31 \<longrightarrow>
                filter (writes_element a (ucast i)) ws =
                  (case map_of logs a of
                     None \<Rightarrow> []
                   | Some log \<Rightarrow>
                       (case map_of log i of
                          None \<Rightarrow> []
                        | Some v \<Rightarrow>
                            (case UndoArrayWrite a (ComponentPrimitiveType rt a) i v of
                               Inl e \<Rightarrow> [] | Inr w \<Rightarrow> [ArrayWrite w]))))"
  using assms
proof (induction logs)
  case Nil
  then show ?case by simp
next
  case (Cons entry logs)
  obtain a' log' where entry: "entry = (a', log')" by (cases entry)
  from Cons.prems entry have p: "primitive_array rt a'"
    and rest: "list_all (\<lambda>entry. primitive_array rt (fst entry)) logs" by simp_all
  from ArrayLog_Undo_ok [OF p, of log' a "ucast i" i] obtain ws1 where ws1:
    "ArrayLog_Undo rt a' log' = Inr ws1" "list_all is_ArrayWrite ws1"
    "a \<noteq> a' \<longrightarrow> filter (writes_element a (ucast i)) ws1 = []"
    "distinct (map fst log') \<and> list_all (\<lambda>entry. fst entry < 2 ^ 31) log' \<and> i < 2 ^ 31 \<longrightarrow>
       filter (writes_element a' (ucast i)) ws1 =
         (case map_of log' i of
            None \<Rightarrow> []
          | Some v \<Rightarrow>
              (case UndoArrayWrite a' (ComponentPrimitiveType rt a') i v of
                 Inl e \<Rightarrow> [] | Inr w \<Rightarrow> [ArrayWrite w]))"
    by blast
  from Cons.IH [OF rest] obtain ws2 where ws2:
    "UndoArrayLogs rt logs = Inr ws2" "list_all is_ArrayWrite ws2"
    "distinct (map fst logs) \<and> list_all (\<lambda>entry. distinct (map fst (snd entry))) logs
       \<and> list_all (\<lambda>entry. list_all (\<lambda>iv. fst iv < 2 ^ 31) (snd entry)) logs
       \<and> i < 2 ^ 31 \<longrightarrow>
       filter (writes_element a (ucast i)) ws2 =
         (case map_of logs a of
            None \<Rightarrow> []
          | Some log \<Rightarrow>
              (case map_of log i of
                 None \<Rightarrow> []
               | Some v \<Rightarrow>
                   (case UndoArrayWrite a (ComponentPrimitiveType rt a) i v of
                      Inl e \<Rightarrow> [] | Inr w \<Rightarrow> [ArrayWrite w])))"
    by blast
  have r: "UndoArrayLogs rt (entry # logs) = Inr (ws1 @ ws2)"
    using entry ws1(1) ws2(1) by simp
  have f: "filter (writes_element a (ucast i)) (ws1 @ ws2) =
         (case map_of (entry # logs) a of
            None \<Rightarrow> []
          | Some log \<Rightarrow>
              (case map_of log i of
                 None \<Rightarrow> []
               | Some v \<Rightarrow>
                   (case UndoArrayWrite a (ComponentPrimitiveType rt a) i v of
                      Inl e \<Rightarrow> [] | Inr w \<Rightarrow> [ArrayWrite w])))"
    if d: "distinct (map fst (entry # logs))
           \<and> list_all (\<lambda>entry. distinct (map fst (snd entry))) (entry # logs)
           \<and> list_all (\<lambda>entry. list_all (\<lambda>iv. fst iv < 2 ^ 31) (snd entry)) (entry # logs)
           \<and> i < 2 ^ 31"
  proof -
    from d entry have absent: "map_of logs a' = None"
      and d1: "distinct (map fst log') \<and> list_all (\<lambda>entry. fst entry < 2 ^ 31) log'
               \<and> i < 2 ^ 31"
      and d2: "distinct (map fst logs)
               \<and> list_all (\<lambda>entry. distinct (map fst (snd entry))) logs
               \<and> list_all (\<lambda>entry. list_all (\<lambda>iv. fst iv < 2 ^ 31) (snd entry)) logs
               \<and> i < 2 ^ 31"
      by (auto simp: map_of_eq_None_iff)
    from ws2(3) d2 have tail: "filter (writes_element a (ucast i)) ws2 =
         (case map_of logs a of
            None \<Rightarrow> []
          | Some log \<Rightarrow>
              (case map_of log i of
                 None \<Rightarrow> []
               | Some v \<Rightarrow>
                   (case UndoArrayWrite a (ComponentPrimitiveType rt a) i v of
                      Inl e \<Rightarrow> [] | Inr w \<Rightarrow> [ArrayWrite w])))"
      by simp
    show ?thesis
    proof (cases "a = a'")
      case True
      from ws1(4) d1 have "filter (writes_element a' (ucast i)) ws1 =
         (case map_of log' i of
            None \<Rightarrow> []
          | Some v \<Rightarrow>
              (case UndoArrayWrite a' (ComponentPrimitiveType rt a') i v of
                 Inl e \<Rightarrow> [] | Inr w \<Rightarrow> [ArrayWrite w]))"
        by simp
      with tail absent entry show ?thesis unfolding True by simp
    next
      case False
      with ws1(3) tail entry show ?thesis by simp
    qed
  qed
  from r ws1(2) ws2(2) f show ?case by simp
qed

section \<open>Rollback in closed form\<close>

lemma UndoInternStringLogs_ok:
  assumes "GetInternTable rt \<noteq> nullptr"
  shows "UndoInternStringLogs rt logs =
           Inr (map (\<lambda>log. InternOp (InternStringLog_Undo_op log)) logs)"
  using assms by (induction logs) (simp_all add: InternStringLog_Undo_def dcheck_def)

lemma Rollback_ok:
  assumes "\<not> IsActiveTransaction rt" "\<not> PendingException rt" "array_logs_undoable rt t"
    "GetInternTable rt \<noteq> nullptr"
  shows "\<exists>arr. UndoArrayLogs rt (array_logs t) = Inr arr \<and> list_all is_ArrayWrite arr
           \<and> Rollback rt t =
               Inr (t\<lparr> rolling_back := False, object_logs := [], array_logs := [],
                        intern_string_logs := [], resolve_string_logs := [] \<rparr>,
                    UndoObjectLogs rt (object_logs t) @ arr
                    @ map (\<lambda>log. InternOp (InternStringLog_Undo_op log)) (intern_string_logs t)
                    @ map ResolveStringLog_Undo (resolve_string_logs t))"
proof -
  from assms(3) have "list_all (\<lambda>entry. primitive_array rt (fst entry)) (array_logs t)"
    by (simp add: array_logs_undoable_def)
  from UndoArrayLogs_ok [OF this] obtain arr where
    arr: "UndoArrayLogs rt (array_logs t) = Inr arr" "list_all is_ArrayWrite arr" by blast
  have "Rollback rt t =
          Inr (t\<lparr> rolling_back := False, object_logs := [], array_logs := [],
                   intern_string_logs := [], resolve_string_logs := [] \<rparr>,
               UndoObjectLogs rt (object_logs t) @ arr
               @ map (\<lambda>log. InternOp (InternStringLog_Undo_op log)) (intern_string_logs t)
               @ map ResolveStringLog_Undo (resolve_string_logs t))"
    using assms(1,2) arr(1)
    by (simp add: Rollback_def Rollback_steps_def Let_def dcheck_def check_def UndoObjectModifications_def
        UndoArrayModifications_def UndoInternStringTableModifications_def
        UndoResolveStringModifications_def UndoInternStringLogs_ok [OF assms(4)])
  with arr show ?thesis by blast
qed

lemma no_field_write_in_others:
  "list_all is_ArrayWrite ws \<Longrightarrow> filter (writes_field ob off) ws = []"
  "filter (writes_field ob off) (map (\<lambda>log. InternOp (f log)) ls) = []"
  "filter (writes_field ob off) (map ResolveStringLog_Undo rs) = []"
  by (induction ws, auto simp: is_ArrayWrite_def)
    (induction ls, auto, induction rs, auto simp: ResolveStringLog_Undo_def)

lemma no_element_write_in_others:
  "list_all is_FieldWrite ws \<Longrightarrow> filter (writes_element a i) ws = []"
  "filter (writes_element a i) (map (\<lambda>log. InternOp (f log)) ls) = []"
  "filter (writes_element a i) (map ResolveStringLog_Undo rs) = []"
  by (induction ws, auto simp: is_FieldWrite_def)
    (induction ls, auto, induction rs, auto simp: ResolveStringLog_Undo_def)

lemma Rollback_field_writes:
  assumes "\<not> IsActiveTransaction rt" "\<not> PendingException rt" "array_logs_undoable rt t"
    "logs_distinct t" "GetInternTable rt \<noteq> nullptr"
  shows "\<exists>t' tr. Rollback rt t = Inr (t', tr)
           \<and> filter (writes_field ob off) tr =
               (case field_entry t ob off of
                  None \<Rightarrow> []
                | Some fv \<Rightarrow>
                    if protected_slot rt ob off then []
                    else [FieldWrite (UndoFieldWrite ob off fv)])"
proof -
  from assms(4) have d: "distinct (map fst (object_logs t))"
    "list_all (\<lambda>entry. distinct (map fst (snd entry))) (object_logs t)"
    by (simp_all add: logs_distinct_def)
  from Rollback_ok [OF assms(1-3,5)] obtain arr t' where
    arr: "list_all is_ArrayWrite arr"
    and r: "Rollback rt t =
          Inr (t', UndoObjectLogs rt (object_logs t) @ arr
               @ map (\<lambda>log. InternOp (InternStringLog_Undo_op log)) (intern_string_logs t)
               @ map ResolveStringLog_Undo (resolve_string_logs t))"
    by blast
  have f: "filter (writes_field ob off)
             (UndoObjectLogs rt (object_logs t) @ arr
              @ map (\<lambda>log. InternOp (InternStringLog_Undo_op log)) (intern_string_logs t)
              @ map ResolveStringLog_Undo (resolve_string_logs t))
           = (case field_entry t ob off of
                None \<Rightarrow> []
              | Some fv \<Rightarrow>
                  if protected_slot rt ob off then []
                  else [FieldWrite (UndoFieldWrite ob off fv)])"
    using arr
    by (simp add: filter_writes_field_UndoObjectLogs [OF d(1,2)] no_field_write_in_others
        field_entry_def split: option.splits)
  from r f show ?thesis by simp
qed

lemma Rollback_element_writes:
  assumes "\<not> IsActiveTransaction rt" "\<not> PendingException rt" "array_logs_undoable rt t"
    "logs_distinct t" "GetInternTable rt \<noteq> nullptr" "array_indices_fit t" "i < 2 ^ 31"
  shows "\<exists>t' tr. Rollback rt t = Inr (t', tr)
           \<and> filter (writes_element a (ucast i)) tr =
               (case array_entry t a i of
                  None \<Rightarrow> []
                | Some v \<Rightarrow>
                    (case UndoArrayWrite a (ComponentPrimitiveType rt a) i v of
                       Inl e \<Rightarrow> [] | Inr w \<Rightarrow> [ArrayWrite w]))"
proof -
  from assms(3) have p: "list_all (\<lambda>entry. primitive_array rt (fst entry)) (array_logs t)"
    by (simp add: array_logs_undoable_def)
  from assms(4,6,7) have d:
    "distinct (map fst (array_logs t))
     \<and> list_all (\<lambda>entry. distinct (map fst (snd entry))) (array_logs t)
     \<and> list_all (\<lambda>entry. list_all (\<lambda>iv. fst iv < 2 ^ 31) (snd entry)) (array_logs t)
     \<and> i < 2 ^ 31"
    by (simp add: logs_distinct_def array_indices_fit_def)
  from UndoArrayLogs_ok [OF p, of i a] d obtain arr where
    arr: "UndoArrayLogs rt (array_logs t) = Inr arr" "list_all is_ArrayWrite arr"
    "filter (writes_element a (ucast i)) arr =
       (case map_of (array_logs t) a of
          None \<Rightarrow> []
        | Some log \<Rightarrow>
            (case map_of log i of
               None \<Rightarrow> []
             | Some v \<Rightarrow>
                 (case UndoArrayWrite a (ComponentPrimitiveType rt a) i v of
                    Inl e \<Rightarrow> [] | Inr w \<Rightarrow> [ArrayWrite w])))"
    by blast
  from Rollback_ok [OF assms(1-3,5)] arr(1) obtain t' where
    r: "Rollback rt t =
          Inr (t', UndoObjectLogs rt (object_logs t) @ arr
               @ map (\<lambda>log. InternOp (InternStringLog_Undo_op log)) (intern_string_logs t)
               @ map ResolveStringLog_Undo (resolve_string_logs t))"
    by auto
  have g: "filter (writes_element a (ucast i))
             (UndoObjectLogs rt (object_logs t) @ arr
              @ map (\<lambda>log. InternOp (InternStringLog_Undo_op log)) (intern_string_logs t)
              @ map ResolveStringLog_Undo (resolve_string_logs t))
           = (case array_entry t a i of
                None \<Rightarrow> []
              | Some v \<Rightarrow>
                  (case UndoArrayWrite a (ComponentPrimitiveType rt a) i v of
                     Inl e \<Rightarrow> [] | Inr w \<Rightarrow> [ArrayWrite w]))"
    using arr(3) list_all_FieldWrite_UndoObjectLogs [of rt "object_logs t"]
    by (simp add: no_element_write_in_others array_entry_def split: option.splits)
  from r g show ?thesis by simp
qed

section \<open>Entries are kept\<close>

lemma LogValue_keeps:
  assumes "map_of log off = Some fv"
  shows "map_of (LogValue kind off' v vol log) off = Some fv"
proof (cases "map_of log off'")
  case None
  with assms have "off' \<noteq> off" by auto
  with assms None show ?thesis by (simp add: map_of_LogValue_absent)
next
  case (Some fv')
  with assms show ?thesis by (simp add: LogValue_present)
qed

lemma ArrayLog_LogValue_keeps:
  assumes "map_of log i = Some v0"
  shows "map_of (ArrayLog_LogValue i' v log) i = Some v0"
proof (cases "map_of log i'")
  case None
  with assms have "i' \<noteq> i" by auto
  with assms None show ?thesis by (simp add: map_of_ArrayLog_LogValue_absent)
next
  case (Some v')
  with assms show ?thesis by (simp add: ArrayLog_LogValue_present)
qed

lemma RecordWriteField_keeps:
  assumes "RecordWriteField rt ob' off' x vol s = Inr s'"
  shows "(field_entry s ob off = Some fv \<longrightarrow> field_entry s' ob off = Some fv)
         \<and> array_logs s' = array_logs s"
proof -
  from assms have s': "s' = object_logs_subscript ob'
      (LogValue (field_arg_kind x) off' (field_arg_raw x) vol) s"
    by (simp add: RecordWriteField_eq dcheck_def split: if_splits)
  have "field_entry s' ob off = Some fv" if e: "field_entry s ob off = Some fv"
  proof -
    from e obtain log where log: "map_of (object_logs s) ob = Some log" "map_of log off = Some fv"
      by (auto simp: field_entry_def split: option.splits)
    show ?thesis
    proof (cases "ob' = ob")
      case True
      with log show ?thesis
        unfolding s' by (simp add: field_entry_def map_of_object_logs_subscript LogValue_keeps)
    next
      case False
      with log show ?thesis
        unfolding s' by (simp add: field_entry_def map_of_object_logs_subscript)
    qed
  qed
  then show ?thesis unfolding s' by (simp add: object_logs_subscript_others)
qed

lemma RecordWriteArray_keeps:
  assumes "RecordWriteArray rt a' i' v s = Inr s'"
  shows "(array_entry s a i = Some v0 \<longrightarrow> array_entry s' a i = Some v0)
         \<and> object_logs s' = object_logs s"
proof -
  from assms have s': "s' = (case map_of (array_logs s) a' of
        None \<Rightarrow> s\<lparr> array_logs := map_emplace a' (ArrayLog_LogValue i' v []) (array_logs s) \<rparr>
      | Some log \<Rightarrow>
          s\<lparr> array_logs := map_update a' (ArrayLog_LogValue i' v log) (array_logs s) \<rparr>)"
    by (simp add: RecordWriteArray_def dcheck_def split: if_splits)
  have "array_entry s' a i = Some v0" if e: "array_entry s a i = Some v0"
  proof -
    from e obtain log where log: "map_of (array_logs s) a = Some log" "map_of log i = Some v0"
      by (auto simp: array_entry_def split: option.splits)
    show ?thesis
    proof (cases "map_of (array_logs s) a'")
      case None
      with log have "a' \<noteq> a" by auto
      with log None show ?thesis
        unfolding s' by (simp add: array_entry_def map_of_map_emplace)
    next
      case (Some log')
      with log show ?thesis
        unfolding s'
        by (cases "a' = a") (simp_all add: array_entry_def map_of_map_update ArrayLog_LogValue_keeps)
    qed
  qed
  moreover have "object_logs s' = object_logs s"
    unfolding s' by (simp split: option.splits)
  ultimately show ?thesis by simp
qed

section \<open>The invariant of the maps\<close>

text \<open>
  A fresh transaction satisfies \<open>logs_distinct\<close> and every recording operation keeps
  it (the root-visiting pass does too, see \<open>VisitRoots_correct\<close>).
\<close>

lemma logs_distinct_Transaction_init: "logs_distinct (Transaction_init s r)"
  by (simp add: logs_distinct_def Transaction_init_def)

lemma logs_distinct_RecordWriteField:
  assumes "RecordWriteField rt ob off x vol t = Inr t'" "logs_distinct t"
  shows "logs_distinct t'"
proof -
  from assms(1) have "t' = object_logs_subscript ob
      (LogValue (field_arg_kind x) off (field_arg_raw x) vol) t"
    by (simp add: RecordWriteField_eq dcheck_def split: if_splits)
  moreover have "logs_distinct (object_logs_subscript ob
      (LogValue (field_arg_kind x) off (field_arg_raw x) vol) t)"
    using assms(2) by (rule logs_distinct_object_logs_subscript) (rule distinct_LogValue)
  ultimately show ?thesis by simp
qed

lemma logs_distinct_RecordWriteArray:
  assumes "RecordWriteArray rt a i v t = Inr t'" "logs_distinct t"
  shows "logs_distinct t'"
proof (cases "map_of (array_logs t) a")
  case None
  with assms(1) have "t' = t\<lparr> array_logs :=
      map_emplace a (ArrayLog_LogValue i v []) (array_logs t) \<rparr>"
    by (simp add: RecordWriteArray_def dcheck_def split: if_splits)
  with assms(2) None show ?thesis
    by (simp add: logs_distinct_def distinct_map_emplace list_all_map_emplace
        distinct_ArrayLog_LogValue)
next
  case (Some log)
  with assms(1) have t': "t' = t\<lparr> array_logs :=
      map_update a (ArrayLog_LogValue i v log) (array_logs t) \<rparr>"
    by (simp add: RecordWriteArray_def dcheck_def split: if_splits)
  from assms(2) have "list_all (\<lambda>entry. distinct (map fst (snd entry))) (array_logs t)"
    by (simp add: logs_distinct_def)
  from list_all_map_of [OF this Some] have "distinct (map fst log)" by simp
  then have "distinct (map fst (ArrayLog_LogValue i v log))" by (rule distinct_ArrayLog_LogValue)
  with assms(2) show ?thesis
    unfolding t' by (simp add: logs_distinct_def keys_map_update list_all_map_update)
qed

lemma logs_distinct_other_records:
  "LogInternedString rt log t = Inr t' \<Longrightarrow> logs_distinct t \<Longrightarrow> logs_distinct t'"
  "RecordResolveString rt cache idx t = Inr t' \<Longrightarrow> logs_distinct t \<Longrightarrow> logs_distinct t'"
  by (auto simp: LogInternedString_def RecordResolveString_def ResolveStringLog_new_def
      dcheck_def logs_distinct_def split: if_splits)

lemma array_indices_fit_Transaction_init: "array_indices_fit (Transaction_init s r)"
  by (simp add: array_indices_fit_def Transaction_init_def)

lemma indices_fit_ArrayLog_LogValue:
  assumes "list_all (\<lambda>iv. fst iv < 2 ^ 31) log" "i < 2 ^ 31"
  shows "list_all (\<lambda>iv. fst iv < 2 ^ 31) (ArrayLog_LogValue i v log)"
  using assms
  by (cases "map_of log i") (simp_all add: ArrayLog_LogValue_def list_all_map_emplace)

lemma array_indices_fit_RecordWriteArray:
  assumes "RecordWriteArray rt a i v t = Inr t'" "array_indices_fit t" "i < 2 ^ 31"
  shows "array_indices_fit t'"
proof (cases "map_of (array_logs t) a")
  case None
  with assms(1) have "t' = t\<lparr> array_logs :=
      map_emplace a (ArrayLog_LogValue i v []) (array_logs t) \<rparr>"
    by (simp add: RecordWriteArray_def dcheck_def split: if_splits)
  moreover have "list_all (\<lambda>iv. fst iv < 2 ^ 31) (ArrayLog_LogValue i v [])"
    using assms(3) by (simp add: ArrayLog_LogValue_def)
  ultimately show ?thesis
    using assms(2) None by (simp add: array_indices_fit_def list_all_map_emplace)
next
  case (Some log)
  with assms(1) have t': "t' = t\<lparr> array_logs :=
      map_update a (ArrayLog_LogValue i v log) (array_logs t) \<rparr>"
    by (simp add: RecordWriteArray_def dcheck_def split: if_splits)
  from assms(2)
  have "list_all (\<lambda>entry. list_all (\<lambda>iv. fst iv < 2 ^ 31) (snd entry)) (array_logs t)"
    by (simp add: array_indices_fit_def)
  from list_all_map_of [OF this Some] have "list_all (\<lambda>iv. fst iv < 2 ^ 31) log" by simp
  then have "list_all (\<lambda>iv. fst iv < 2 ^ 31) (ArrayLog_LogValue i v log)"
    using assms(3) by (rule indices_fit_ArrayLog_LogValue)
  with assms(2) show ?thesis
    unfolding t' by (simp add: array_indices_fit_def list_all_map_update)
qed

section \<open>First write wins\<close>

lemma first_field_write:
  assumes "\<not> IsActiveTransaction rt" "\<not> PendingException rt"
    and "logs_distinct t" "array_logs_undoable rt t" "assert_no_new_records_reason t = None"
    and "ob \<noteq> nullptr" "field_entry t ob off = None"
    and "GetInternTable rt \<noteq> nullptr"
  shows "\<exists>t1. RecordWriteField rt ob off x1 vol1 t = Inr t1
           \<and> field_entry t1 ob off =
               Some \<lparr> fv_value = field_arg_raw x1, fv_kind = field_arg_kind x1,
                      fv_is_volatile = vol1 \<rparr>
           \<and> RecordWriteField rt ob off x2 vol2 t1 = Inr t1
           \<and> (\<exists>t' tr. Rollback rt t1 = Inr (t', tr)
                 \<and> filter (writes_field ob off) tr =
                     (if protected_slot rt ob off then []
                      else [FieldWrite (SetField ob off x1 vol1)]))"
proof -
  let ?f = "LogValue (field_arg_kind x1) off (field_arg_raw x1) vol1"
  let ?t1 = "object_logs_subscript ob ?f t"
  let ?fv = "\<lparr> fv_value = field_arg_raw x1, fv_kind = field_arg_kind x1, fv_is_volatile = vol1 \<rparr>"
  have r1: "RecordWriteField rt ob off x1 vol1 t = Inr ?t1"
    using assms(6,5) by (rule RecordWriteField_ok)
  have e1: "field_entry ?t1 ob off = Some ?fv"
    using assms(7) by (rule field_entry_LogValue_absent)
  have reason: "assert_no_new_records_reason ?t1 = None"
    using assms(5) by (simp add: object_logs_subscript_others)
  have "RecordWriteField rt ob off x2 vol2 ?t1 =
          Inr (object_logs_subscript ob
                (LogValue (field_arg_kind x2) off (field_arg_raw x2) vol2) ?t1)"
    using assms(6) reason by (rule RecordWriteField_ok)
  then have r2: "RecordWriteField rt ob off x2 vol2 ?t1 = Inr ?t1"
    by (simp add: object_logs_subscript_LogValue_present [OF e1])
  have d: "logs_distinct ?t1"
    using assms(3) by (rule logs_distinct_object_logs_subscript) (rule distinct_LogValue)
  have u: "array_logs_undoable rt ?t1"
    using assms(4) by (simp add: array_logs_undoable_def object_logs_subscript_others)
  from Rollback_field_writes [OF assms(1,2) u d assms(8), of ob off] e1 obtain t' tr where
    "Rollback rt ?t1 = Inr (t', tr)"
    "filter (writes_field ob off) tr =
       (if protected_slot rt ob off then [] else [FieldWrite (UndoFieldWrite ob off ?fv)])"
    by auto
  then have "\<exists>t' tr. Rollback rt ?t1 = Inr (t', tr)
      \<and> filter (writes_field ob off) tr =
          (if protected_slot rt ob off then [] else [FieldWrite (SetField ob off x1 vol1)])"
    by (simp add: UndoFieldWrite_logged)
  with r1 e1 r2 show ?thesis by blast
qed

lemma UndoArrayWrite_low_bits:
  assumes "UndoArrayWrite a ty i v = Inr w"
  shows "(ty = kPrimBoolean \<longrightarrow> w = BooleanArray_Set a (ucast i) (ucast v))
       \<and> (ty = kPrimByte \<longrightarrow> w = ByteArray_Set a (ucast i) (ucast v))
       \<and> (ty = kPrimChar \<longrightarrow> w = CharArray_Set a (ucast i) (ucast v))
       \<and> (ty = kPrimShort \<longrightarrow> w = ShortArray_Set a (ucast i) (ucast v))
       \<and> (ty = kPrimInt \<longrightarrow> w = IntArray_Set a (ucast i) (ucast v))
       \<and> (ty = kPrimLong \<longrightarrow> w = LongArray_Set a (ucast i) v)"
  using assms by (cases ty) (simp_all add: UndoArrayWrite_def)

lemma first_array_write:
  assumes "\<not> IsActiveTransaction rt" "\<not> PendingException rt"
    and "logs_distinct t" "array_logs_undoable rt t" "assert_no_new_records_reason t = None"
    and "primitive_array rt a" "array_entry t a i = None"
    and "GetInternTable rt \<noteq> nullptr"
    and "array_indices_fit t" "i < 2 ^ 31"
  shows "\<exists>t1. RecordWriteArray rt a i v1 t = Inr t1
           \<and> array_entry t1 a i = Some v1
           \<and> RecordWriteArray rt a i v2 t1 = Inr t1
           \<and> (\<exists>t' tr w. Rollback rt t1 = Inr (t', tr)
                 \<and> UndoArrayWrite a (ComponentPrimitiveType rt a) i v1 = Inr w
                 \<and> filter (writes_element a (ucast i)) tr = [ArrayWrite w])"
proof -
  from RecordWriteArray_absent [OF assms(6,5,7,3,4), of v1] obtain t1 where
    t1: "RecordWriteArray rt a i v1 t = Inr t1" "array_entry t1 a i = Some v1"
    "logs_distinct t1" "array_logs_undoable rt t1" "assert_no_new_records_reason t1 = None"
    by blast
  have fit: "array_indices_fit t1"
    using t1(1) assms(9,10) by (rule array_indices_fit_RecordWriteArray)
  have r2: "RecordWriteArray rt a i v2 t1 = Inr t1"
    using assms(6) t1(5,2) by (rule RecordWriteArray_present)
  from assms(6) have "is_primitive_component (ComponentPrimitiveType rt a)"
    by (simp add: primitive_array_def)
  from UndoArrayWrite_ok [OF this, of a i v1] obtain w where
    w: "UndoArrayWrite a (ComponentPrimitiveType rt a) i v1 = Inr w" by blast
  from Rollback_element_writes [OF assms(1,2) t1(4,3) assms(8) fit assms(10), of a] t1(2) w
  obtain t' tr where
    "Rollback rt t1 = Inr (t', tr)" "filter (writes_element a (ucast i)) tr = [ArrayWrite w]"
    by auto
  with t1(1,2) r2 w show ?thesis by blast
qed

text \<open>
  C1, refuted as stated. The claim promises the restoration at every object and field
  offset. The instance \<open>0x3000\<close> has its class slot at offset \<open>0\<close>: the first
  \<open>RecordWriteFieldReference\<close> call for that slot logs the class \<open>0x2010\<close> it is given, a
  second call with another value changes nothing, and the rollback makes no write at all, so
  the slot keeps what the later write stored and the value recorded by the first write is not
  restored.
\<close>

theorem first_write_wins_class_slot_counterexample:
  "ClassOffset example_runtime = 0
   \<and> field_entry (Transaction_init True 0x2000) 0x3000 0 = None
   \<and> RecordWriteFieldReference example_runtime 0x3000 0 0x2010 False
       (Transaction_init True 0x2000) = Inr example_class_slot_logged
   \<and> field_entry example_class_slot_logged 0x3000 0
       = Some \<lparr> fv_value = 0x2010, fv_kind = kReference, fv_is_volatile = False \<rparr>
   \<and> RecordWriteFieldReference example_runtime 0x3000 0 0x2000 False
       example_class_slot_logged = Inr example_class_slot_logged
   \<and> Rollback example_runtime example_class_slot_logged
       = Inr (Transaction_init True 0x2000, [])"
  by (simp add: example_runtime_def example_class_slot_logged_def Transaction_init_def
      field_entry_def RecordWriteFieldReference_def LogReferenceValue_def LogValue_def
      object_logs_subscript_def dcheck_def check_def nullptr_def
      Rollback_def Rollback_steps_def Let_def UndoObjectModifications_def
      UndoArrayModifications_def UndoInternStringTableModifications_def
      UndoResolveStringModifications_def)

text \<open>
  C1, amended. First write wins. On a transaction whose maps hold each key once, with no
  reentrancy guard installed, take a non-null object and an offset not yet logged, and a
  primitive array and an index not yet logged, the index and the indices already logged
  being array indices (below \<open>2^31\<close>). The first \<open>RecordWriteField*\<close> call returns and logs
  the value, kind and volatility it was given; a second call for the same location, with any
  value, kind and volatility, returns the transaction unchanged; the rollback that follows
  (outside an active transaction, with no exception pending, the logged arrays primitive
  and the interning table present) returns, and at an offset other than the two protected
  slots the only write it makes to the location stores the value of the first call with the
  accessor of its kind and volatility; at a protected slot it makes no write. The same holds
  for \<open>RecordWriteArray\<close> and an element: the only write the rollback makes to the element
  is the undo of the value of the first call, which in a boolean, byte, char, short, int or
  long array stores the low bits of that value at the width of the element (what it stores
  in a float or double array is left to C2). Moreover no \<open>RecordWriteField*\<close> or
  \<open>RecordWriteArray\<close> call that returns, for whatever location and on whatever transaction,
  changes an entry that is already logged.
\<close>

theorem first_write_wins:
  assumes "\<not> IsActiveTransaction rt" "\<not> PendingException rt"
    and "logs_distinct t" "array_logs_undoable rt t" "assert_no_new_records_reason t = None"
    and "ob \<noteq> nullptr" "field_entry t ob off = None"
    and "primitive_array rt a" "array_entry t a i = None"
    and "GetInternTable rt \<noteq> nullptr"
    and "array_indices_fit t" "i < 2 ^ 31"
  shows "(\<exists>t1. RecordWriteField rt ob off x1 vol1 t = Inr t1
            \<and> field_entry t1 ob off =
                Some \<lparr> fv_value = field_arg_raw x1, fv_kind = field_arg_kind x1,
                       fv_is_volatile = vol1 \<rparr>
            \<and> RecordWriteField rt ob off x2 vol2 t1 = Inr t1
            \<and> (\<exists>t' tr. Rollback rt t1 = Inr (t', tr)
                  \<and> filter (writes_field ob off) tr =
                      (if protected_slot rt ob off then []
                       else [FieldWrite (SetField ob off x1 vol1)])))
       \<and> (\<exists>t1. RecordWriteArray rt a i v1 t = Inr t1
            \<and> array_entry t1 a i = Some v1
            \<and> RecordWriteArray rt a i v2 t1 = Inr t1
            \<and> (\<exists>t' tr w. Rollback rt t1 = Inr (t', tr)
                  \<and> UndoArrayWrite a (ComponentPrimitiveType rt a) i v1 = Inr w
                  \<and> filter (writes_element a (ucast i)) tr = [ArrayWrite w]
                  \<and> (ComponentPrimitiveType rt a = kPrimBoolean
                       \<longrightarrow> w = BooleanArray_Set a (ucast i) (ucast v1))
                  \<and> (ComponentPrimitiveType rt a = kPrimByte
                       \<longrightarrow> w = ByteArray_Set a (ucast i) (ucast v1))
                  \<and> (ComponentPrimitiveType rt a = kPrimChar
                       \<longrightarrow> w = CharArray_Set a (ucast i) (ucast v1))
                  \<and> (ComponentPrimitiveType rt a = kPrimShort
                       \<longrightarrow> w = ShortArray_Set a (ucast i) (ucast v1))
                  \<and> (ComponentPrimitiveType rt a = kPrimInt
                       \<longrightarrow> w = IntArray_Set a (ucast i) (ucast v1))
                  \<and> (ComponentPrimitiveType rt a = kPrimLong
                       \<longrightarrow> w = LongArray_Set a (ucast i) v1)))
       \<and> (\<forall>s s' ob' off' x vol fv.
             RecordWriteField rt ob' off' x vol s = Inr s' \<and> field_entry s ob off = Some fv
             \<longrightarrow> field_entry s' ob off = Some fv)
       \<and> (\<forall>s s' a' i' v v0.
             RecordWriteArray rt a' i' v s = Inr s' \<and> array_entry s a i = Some v0
             \<longrightarrow> array_entry s' a i = Some v0)"
proof (intro conjI)
  show "\<exists>t1. RecordWriteField rt ob off x1 vol1 t = Inr t1
            \<and> field_entry t1 ob off =
                Some \<lparr> fv_value = field_arg_raw x1, fv_kind = field_arg_kind x1,
                       fv_is_volatile = vol1 \<rparr>
            \<and> RecordWriteField rt ob off x2 vol2 t1 = Inr t1
            \<and> (\<exists>t' tr. Rollback rt t1 = Inr (t', tr)
                  \<and> filter (writes_field ob off) tr =
                      (if protected_slot rt ob off then []
                       else [FieldWrite (SetField ob off x1 vol1)]))"
    using assms(1-7,10) by (rule first_field_write)
  from first_array_write [OF assms(1-5,8,9,10,11,12), of v1 v2] obtain t1 t' tr w where
    a: "RecordWriteArray rt a i v1 t = Inr t1" "array_entry t1 a i = Some v1"
    "RecordWriteArray rt a i v2 t1 = Inr t1" "Rollback rt t1 = Inr (t', tr)"
    "UndoArrayWrite a (ComponentPrimitiveType rt a) i v1 = Inr w"
    "filter (writes_element a (ucast i)) tr = [ArrayWrite w]"
    by blast
  note low = UndoArrayWrite_low_bits [OF a(5)]
  have "\<exists>t' tr w. Rollback rt t1 = Inr (t', tr)
                  \<and> UndoArrayWrite a (ComponentPrimitiveType rt a) i v1 = Inr w
                  \<and> filter (writes_element a (ucast i)) tr = [ArrayWrite w]
                  \<and> (ComponentPrimitiveType rt a = kPrimBoolean
                       \<longrightarrow> w = BooleanArray_Set a (ucast i) (ucast v1))
                  \<and> (ComponentPrimitiveType rt a = kPrimByte
                       \<longrightarrow> w = ByteArray_Set a (ucast i) (ucast v1))
                  \<and> (ComponentPrimitiveType rt a = kPrimChar
                       \<longrightarrow> w = CharArray_Set a (ucast i) (ucast v1))
                  \<and> (ComponentPrimitiveType rt a = kPrimShort
                       \<longrightarrow> w = ShortArray_Set a (ucast i) (ucast v1))
                  \<and> (ComponentPrimitiveType rt a = kPrimInt
                       \<longrightarrow> w = IntArray_Set a (ucast i) (ucast v1))
                  \<and> (ComponentPrimitiveType rt a = kPrimLong
                       \<longrightarrow> w = LongArray_Set a (ucast i) v1)"
    apply (rule exI [of _ t'], rule exI [of _ tr], rule exI [of _ w])
    using a(4,5,6) low by simp
  with a(1,2,3)
  show "\<exists>t1. RecordWriteArray rt a i v1 t = Inr t1
            \<and> array_entry t1 a i = Some v1
            \<and> RecordWriteArray rt a i v2 t1 = Inr t1
            \<and> (\<exists>t' tr w. Rollback rt t1 = Inr (t', tr)
                  \<and> UndoArrayWrite a (ComponentPrimitiveType rt a) i v1 = Inr w
                  \<and> filter (writes_element a (ucast i)) tr = [ArrayWrite w]
                  \<and> (ComponentPrimitiveType rt a = kPrimBoolean
                       \<longrightarrow> w = BooleanArray_Set a (ucast i) (ucast v1))
                  \<and> (ComponentPrimitiveType rt a = kPrimByte
                       \<longrightarrow> w = ByteArray_Set a (ucast i) (ucast v1))
                  \<and> (ComponentPrimitiveType rt a = kPrimChar
                       \<longrightarrow> w = CharArray_Set a (ucast i) (ucast v1))
                  \<and> (ComponentPrimitiveType rt a = kPrimShort
                       \<longrightarrow> w = ShortArray_Set a (ucast i) (ucast v1))
                  \<and> (ComponentPrimitiveType rt a = kPrimInt
                       \<longrightarrow> w = IntArray_Set a (ucast i) (ucast v1))
                  \<and> (ComponentPrimitiveType rt a = kPrimLong
                       \<longrightarrow> w = LongArray_Set a (ucast i) v1))"
    by blast
  show "\<forall>s s' ob' off' x vol fv.
             RecordWriteField rt ob' off' x vol s = Inr s' \<and> field_entry s ob off = Some fv
             \<longrightarrow> field_entry s' ob off = Some fv"
    using RecordWriteField_keeps by blast
  show "\<forall>s s' a' i' v v0.
             RecordWriteArray rt a' i' v s = Inr s' \<and> array_entry s a i = Some v0
             \<longrightarrow> array_entry s' a i = Some v0"
    using RecordWriteArray_keeps by blast
qed

lemma example_facts:
  "\<not> IsActiveTransaction example_runtime" "\<not> PendingException example_runtime"
  "logs_distinct (Transaction_init s r)" "array_logs_undoable example_runtime (Transaction_init s r)"
  "assert_no_new_records_reason (Transaction_init s r) = None"
  "field_entry (Transaction_init s r) ob off = None"
  "array_entry (Transaction_init s r) a i = None"
  "primitive_array example_runtime 0x3100"
  "(0x3000 :: obj) \<noteq> nullptr"
  "GetInternTable example_runtime \<noteq> nullptr"
  "array_indices_fit (Transaction_init s r)"
  "(3 :: size_t) < 2 ^ 31"
  by (simp_all add: example_runtime_def Transaction_init_def logs_distinct_def
      array_logs_undoable_def field_entry_def array_entry_def primitive_array_def
      is_primitive_component_def nullptr_def array_indices_fit_def)

theorem first_write_wins_witness:
  "\<not> IsActiveTransaction example_runtime \<and> \<not> PendingException example_runtime
   \<and> logs_distinct (Transaction_init True 0x2000)
   \<and> array_logs_undoable example_runtime (Transaction_init True 0x2000)
   \<and> assert_no_new_records_reason (Transaction_init True 0x2000) = None
   \<and> (0x3000 :: obj) \<noteq> nullptr
   \<and> field_entry (Transaction_init True 0x2000) 0x3000 12 = None
   \<and> primitive_array example_runtime 0x3100
   \<and> array_entry (Transaction_init True 0x2000) 0x3100 3 = None
   \<and> GetInternTable example_runtime \<noteq> nullptr
   \<and> array_indices_fit (Transaction_init True 0x2000)
   \<and> (3 :: size_t) < 2 ^ 31
   \<and> (\<exists>t1. RecordWriteField32 example_runtime 0x3000 12 0 False (Transaction_init True 0x2000)
              = Inr t1
          \<and> RecordWriteField32 example_runtime 0x3000 12 42 False t1 = Inr t1
          \<and> (\<exists>t' tr. Rollback example_runtime t1 = Inr (t', tr)
                \<and> filter (writes_field 0x3000 12) tr = [FieldWrite (SetField32 0x3000 12 0)]))
   \<and> (\<exists>t1. RecordWriteArray example_runtime 0x3100 3 7 (Transaction_init True 0x2000) = Inr t1
          \<and> RecordWriteArray example_runtime 0x3100 3 9 t1 = Inr t1
          \<and> (\<exists>t' tr. Rollback example_runtime t1 = Inr (t', tr)
                \<and> filter (writes_element 0x3100 3) tr = [ArrayWrite (IntArray_Set 0x3100 3 7)]))
   \<and> field_entry example_logged 0x3000 12
       = Some \<lparr> fv_value = 0, fv_kind = k32Bits, fv_is_volatile = False \<rparr>
   \<and> (\<exists>s'. RecordWriteFieldByte example_runtime 0x3000 16 5 True example_logged = Inr s'
          \<and> field_entry s' 0x3000 12
              = Some \<lparr> fv_value = 0, fv_kind = k32Bits, fv_is_volatile = False \<rparr>)
   \<and> array_entry example_logged 0x3100 3 = Some 7
   \<and> (\<exists>s'. RecordWriteArray example_runtime 0x3100 4 1 example_logged = Inr s'
          \<and> array_entry s' 0x3100 3 = Some 7)"
proof -
  note h = example_facts(1,2)
    example_facts(3-5) [of True "0x2000"] example_facts(9)
    example_facts(6) [of True "0x2000" "0x3000" 12]
    example_facts(8) example_facts(7) [of True "0x2000" "0x3100" 3] example_facts(10)
    example_facts(11) [of True "0x2000"] example_facts(12)
  note w = first_write_wins [OF h, of "Bits32Arg 0" False "Bits32Arg 42" False 7 9]
  have p: "\<not> protected_slot example_runtime 0x3000 12"
    by (simp add: protected_slot_def example_runtime_def)
  have c: "ComponentPrimitiveType example_runtime 0x3100 = kPrimInt"
    by (simp add: example_runtime_def)
  from w [THEN conjunct1]
  have scenario1:
    "(\<exists>t1. RecordWriteField32 example_runtime 0x3000 12 0 False (Transaction_init True 0x2000)
              = Inr t1
          \<and> RecordWriteField32 example_runtime 0x3000 12 42 False t1 = Inr t1
          \<and> (\<exists>t' tr. Rollback example_runtime t1 = Inr (t', tr)
                \<and> filter (writes_field 0x3000 12) tr = [FieldWrite (SetField32 0x3000 12 0)]))"
    by (auto simp: p)
  from w [THEN conjunct2, THEN conjunct1] obtain t1 t' tr wr where
    a: "RecordWriteArray example_runtime 0x3100 3 7 (Transaction_init True 0x2000) = Inr t1"
    "RecordWriteArray example_runtime 0x3100 3 9 t1 = Inr t1"
    "Rollback example_runtime t1 = Inr (t', tr)"
    "filter (writes_element 0x3100 (ucast (3 :: size_t))) tr = [ArrayWrite wr]"
    "ComponentPrimitiveType example_runtime 0x3100 = kPrimInt
       \<longrightarrow> wr = IntArray_Set 0x3100 (ucast (3 :: size_t)) (ucast (7 :: 64 word))"
    by (elim conjE exE)
  from a(4,5) c
  have "filter (writes_element 0x3100 3) tr = [ArrayWrite (IntArray_Set 0x3100 3 7)]"
    by simp
  with a(1,2,3) have scenario2:
    "(\<exists>t1. RecordWriteArray example_runtime 0x3100 3 7 (Transaction_init True 0x2000) = Inr t1
          \<and> RecordWriteArray example_runtime 0x3100 3 9 t1 = Inr t1
          \<and> (\<exists>t' tr. Rollback example_runtime t1 = Inr (t', tr)
                \<and> filter (writes_element 0x3100 3) tr = [ArrayWrite (IntArray_Set 0x3100 3 7)]))"
    by blast
  have e: "field_entry example_logged 0x3000 12
       = Some \<lparr> fv_value = 0, fv_kind = k32Bits, fv_is_volatile = False \<rparr>"
    "array_entry example_logged 0x3100 3 = Some 7"
    by (simp_all add: example_logged_def field_entry_def array_entry_def)
  have reason: "assert_no_new_records_reason example_logged = None"
    by (simp add: example_logged_def Transaction_init_def)
  from RecordWriteField_ok [OF example_facts(9) reason, of example_runtime 16 "ByteArg 5" True]
  obtain s1 where s1: "RecordWriteField example_runtime 0x3000 16 (ByteArg 5) True example_logged
      = Inr s1" by blast
  from RecordWriteArray_ok [OF example_facts(8) reason, of 4 1]
  obtain s2 where s2: "RecordWriteArray example_runtime 0x3100 4 1 example_logged = Inr s2"
    by blast
  from w [THEN conjunct2, THEN conjunct2, THEN conjunct1] s1 e(1)
  have k1: "field_entry s1 0x3000 12
       = Some \<lparr> fv_value = 0, fv_kind = k32Bits, fv_is_volatile = False \<rparr>"
    by blast
  from w [THEN conjunct2, THEN conjunct2, THEN conjunct2] s2 e(2)
  have k2: "array_entry s2 0x3100 3 = Some 7"
    by blast
  from s1 k1 have f: "\<exists>s'. RecordWriteFieldByte example_runtime 0x3000 16 5 True example_logged
      = Inr s' \<and> field_entry s' 0x3000 12
              = Some \<lparr> fv_value = 0, fv_kind = k32Bits, fv_is_volatile = False \<rparr>"
    by simp
  from s2 k2 have g: "\<exists>s'. RecordWriteArray example_runtime 0x3100 4 1 example_logged = Inr s'
          \<and> array_entry s' 0x3100 3 = Some 7"
    by simp
  from h scenario1 scenario2 e f g show ?thesis by simp
qed

section \<open>The four phases\<close>

text \<open>
  C3. Outside an active transaction, with no exception pending, every logged array a
  primitive array and the interning table present, \<open>Rollback\<close> returns, and its body
  passes through six states \<open>w0\<close> to \<open>w5\<close>. It first sets \<open>rolling_back\<close> (\<open>w0\<close>, whatever
  the flag was before, with no call made yet), then runs the four phases in the order
  object logs (\<open>w1\<close>), array logs (\<open>w2\<close>), intern-string logs (\<open>w3\<close>), resolve-string logs
  (\<open>w4\<close>): each phase appends its calls (field writes, then array writes, then
  interning-table calls in log order, then \<open>ClearString\<close> calls in log order) and clears
  its collection, leaving the later collections as they were; \<open>rolling_back\<close> holds from
  \<open>w0\<close> to \<open>w4\<close> and is cleared in \<open>w5\<close>, the state \<open>Rollback\<close> returns, in which all four
  collections are empty.
\<close>

theorem Rollback_four_phases:
  assumes "\<not> IsActiveTransaction rt" "\<not> PendingException rt" "array_logs_undoable rt t"
    "GetInternTable rt \<noteq> nullptr"
  shows "\<exists>arr w0 w1 w2 w3 w4 w5.
           Rollback_steps rt t = Inr [w0, w1, w2, w3, w4, w5]
         \<and> Rollback rt t = Inr w5
         \<and> w0 = (t\<lparr> rolling_back := True \<rparr>, [])
         \<and> UndoObjectModifications rt w0 = w1
         \<and> UndoArrayModifications rt w1 = Inr w2
         \<and> UndoInternStringTableModifications rt w2 = Inr w3
         \<and> UndoResolveStringModifications w3 = w4
         \<and> w5 = ((fst w4)\<lparr> rolling_back := False \<rparr>, snd w4)
         \<and> w1 = (t\<lparr> rolling_back := True, object_logs := [] \<rparr>,
                 UndoObjectLogs rt (object_logs t))
         \<and> UndoArrayLogs rt (array_logs t) = Inr arr \<and> list_all is_ArrayWrite arr
         \<and> w2 = (t\<lparr> rolling_back := True, object_logs := [], array_logs := [] \<rparr>,
                 snd w1 @ arr)
         \<and> w3 = (t\<lparr> rolling_back := True, object_logs := [], array_logs := [],
                     intern_string_logs := [] \<rparr>,
                 snd w2 @ map (\<lambda>log. InternOp (InternStringLog_Undo_op log)) (intern_string_logs t))
         \<and> w4 = (t\<lparr> rolling_back := True, object_logs := [], array_logs := [],
                     intern_string_logs := [], resolve_string_logs := [] \<rparr>,
                 snd w3 @ map ResolveStringLog_Undo (resolve_string_logs t))
         \<and> list_all is_FieldWrite (snd w1)
         \<and> IsRollingBack (fst w0)
         \<and> IsRollingBack (fst w1) \<and> IsRollingBack (fst w2) \<and> IsRollingBack (fst w3)
         \<and> IsRollingBack (fst w4)
         \<and> \<not> IsRollingBack (fst w5)
         \<and> object_logs (fst w5) = [] \<and> array_logs (fst w5) = []
         \<and> intern_string_logs (fst w5) = [] \<and> resolve_string_logs (fst w5) = []"
proof -
  from Rollback_ok [OF assms] obtain arr where
    arr: "UndoArrayLogs rt (array_logs t) = Inr arr" "list_all is_ArrayWrite arr" by blast
  let ?w0 = "(t\<lparr> rolling_back := True \<rparr>, [] :: effect list)"
  let ?w1 = "(t\<lparr> rolling_back := True, object_logs := [] \<rparr>, UndoObjectLogs rt (object_logs t))"
  let ?w2 = "(t\<lparr> rolling_back := True, object_logs := [], array_logs := [] \<rparr>, snd ?w1 @ arr)"
  let ?w3 = "(t\<lparr> rolling_back := True, object_logs := [], array_logs := [],
                 intern_string_logs := [] \<rparr>,
              snd ?w2 @ map (\<lambda>log. InternOp (InternStringLog_Undo_op log)) (intern_string_logs t))"
  let ?w4 = "(t\<lparr> rolling_back := True, object_logs := [], array_logs := [],
                 intern_string_logs := [], resolve_string_logs := [] \<rparr>,
              snd ?w3 @ map ResolveStringLog_Undo (resolve_string_logs t))"
  let ?w5 = "((fst ?w4)\<lparr> rolling_back := False \<rparr>, snd ?w4)"
  have p1: "UndoObjectModifications rt ?w0 = ?w1"
    by (simp add: UndoObjectModifications_def)
  have p2: "UndoArrayModifications rt ?w1 = Inr ?w2"
    using arr(1) by (simp add: UndoArrayModifications_def)
  have p3: "UndoInternStringTableModifications rt ?w2 = Inr ?w3"
    by (simp add: UndoInternStringTableModifications_def UndoInternStringLogs_ok [OF assms(4)])
  have p4: "UndoResolveStringModifications ?w3 = ?w4"
    by (simp add: UndoResolveStringModifications_def)
  have s: "Rollback_steps rt t = Inr [?w0, ?w1, ?w2, ?w3, ?w4, ?w5]"
    using assms(1,2) arr(1)
    by (simp add: Rollback_steps_def Let_def dcheck_def check_def UndoObjectModifications_def
        UndoArrayModifications_def UndoInternStringTableModifications_def
        UndoResolveStringModifications_def UndoInternStringLogs_ok [OF assms(4)])
  have r: "Rollback rt t = Inr ?w5"
    unfolding Rollback_def s by simp
  have f: "list_all is_FieldWrite (snd ?w1)"
    by (simp add: list_all_FieldWrite_UndoObjectLogs)
  have flags: "IsRollingBack (fst ?w0)"
    "IsRollingBack (fst ?w1)" "IsRollingBack (fst ?w2)" "IsRollingBack (fst ?w3)"
    "IsRollingBack (fst ?w4)" "\<not> IsRollingBack (fst ?w5)"
    "object_logs (fst ?w5) = []" "array_logs (fst ?w5) = []"
    "intern_string_logs (fst ?w5) = []" "resolve_string_logs (fst ?w5) = []"
    by (simp_all add: IsRollingBack_def)
  show ?thesis
    apply (rule exI [of _ arr], rule exI [of _ ?w0], rule exI [of _ ?w1], rule exI [of _ ?w2])
    apply (rule exI [of _ ?w3], rule exI [of _ ?w4], rule exI [of _ ?w5])
    using s r p1 p2 p3 p4 arr f flags by (intro conjI refl)
qed

theorem Rollback_four_phases_witness:
  "\<not> IsActiveTransaction example_runtime \<and> \<not> PendingException example_runtime
   \<and> array_logs_undoable example_runtime example_full
   \<and> GetInternTable example_runtime \<noteq> nullptr
   \<and> \<not> IsRollingBack example_full
   \<and> Rollback_steps example_runtime example_full =
       Inr [(example_full\<lparr> rolling_back := True \<rparr>, []),
            (example_full\<lparr> rolling_back := True, object_logs := [] \<rparr>,
             [FieldWrite (SetField32 0x3000 12 0)]),
            (example_full\<lparr> rolling_back := True, object_logs := [], array_logs := [] \<rparr>,
             [FieldWrite (SetField32 0x3000 12 0), ArrayWrite (IntArray_Set 0x3100 3 7)]),
            (example_full\<lparr> rolling_back := True, object_logs := [], array_logs := [],
                           intern_string_logs := [] \<rparr>,
             [FieldWrite (SetField32 0x3000 12 0), ArrayWrite (IntArray_Set 0x3100 3 7),
              InternOp (RemoveStrongFromTransaction 0x3400)]),
            (example_full\<lparr> rolling_back := True, object_logs := [], array_logs := [],
                           intern_string_logs := [], resolve_string_logs := [] \<rparr>,
             [FieldWrite (SetField32 0x3000 12 0), ArrayWrite (IntArray_Set 0x3100 3 7),
              InternOp (RemoveStrongFromTransaction 0x3400), ClearString 0x3500 2]),
            (Transaction_init True 0x2000,
             [FieldWrite (SetField32 0x3000 12 0), ArrayWrite (IntArray_Set 0x3100 3 7),
              InternOp (RemoveStrongFromTransaction 0x3400), ClearString 0x3500 2])]
   \<and> Rollback example_runtime example_full =
       Inr (Transaction_init True 0x2000,
            [FieldWrite (SetField32 0x3000 12 0), ArrayWrite (IntArray_Set 0x3100 3 7),
             InternOp (RemoveStrongFromTransaction 0x3400), ClearString 0x3500 2])"
proof -
  have h: "\<not> IsActiveTransaction example_runtime" "\<not> PendingException example_runtime"
    "array_logs_undoable example_runtime example_full"
    "GetInternTable example_runtime \<noteq> nullptr"
    by (simp_all add: example_runtime_def example_full_def example_logged_def
        array_logs_undoable_def primitive_array_def is_primitive_component_def nullptr_def)
  have n: "\<not> IsRollingBack example_full"
    by (simp add: IsRollingBack_def example_full_def example_logged_def Transaction_init_def)
  from Rollback_four_phases [OF h] obtain arr w0 w1 w2 w3 w4 w5 where
    s: "Rollback_steps example_runtime example_full = Inr [w0, w1, w2, w3, w4, w5]"
    and r: "Rollback example_runtime example_full = Inr w5"
    and w0: "w0 = (example_full\<lparr> rolling_back := True \<rparr>, [])"
    and w5: "w5 = ((fst w4)\<lparr> rolling_back := False \<rparr>, snd w4)"
    and arr: "UndoArrayLogs example_runtime (array_logs example_full) = Inr arr"
    and w1: "w1 = (example_full\<lparr> rolling_back := True, object_logs := [] \<rparr>,
                 UndoObjectLogs example_runtime (object_logs example_full))"
    and w2: "w2 = (example_full\<lparr> rolling_back := True, object_logs := [], array_logs := [] \<rparr>,
                 snd w1 @ arr)"
    and w3: "w3 = (example_full\<lparr> rolling_back := True, object_logs := [], array_logs := [],
                     intern_string_logs := [] \<rparr>,
                 snd w2 @ map (\<lambda>log. InternOp (InternStringLog_Undo_op log))
                            (intern_string_logs example_full))"
    and w4: "w4 = (example_full\<lparr> rolling_back := True, object_logs := [], array_logs := [],
                     intern_string_logs := [], resolve_string_logs := [] \<rparr>,
                 snd w3 @ map ResolveStringLog_Undo (resolve_string_logs example_full))"
    by (elim conjE exE)
  have "UndoArrayLogs example_runtime (array_logs example_full)
        = Inr [ArrayWrite (IntArray_Set 0x3100 3 7)]"
    by (simp add: example_full_def example_logged_def example_runtime_def ArrayLog_Undo_def
        dcheck_def UndoArrayWrite_def nullptr_def)
  with arr have a: "arr = [ArrayWrite (IntArray_Set 0x3100 3 7)]" by simp
  have o: "UndoObjectLogs example_runtime (object_logs example_full)
        = [FieldWrite (SetField32 0x3000 12 0)]"
    by (simp add: example_full_def example_logged_def example_runtime_def UndoFieldWrite_def)
  have m: "map (\<lambda>log. InternOp (InternStringLog_Undo_op log)) (intern_string_logs example_full)
        = [InternOp (RemoveStrongFromTransaction 0x3400)]"
    "map ResolveStringLog_Undo (resolve_string_logs example_full) = [ClearString 0x3500 2]"
    by (simp_all add: example_full_def InternStringLog_Undo_op_def ResolveStringLog_Undo_def)
  have t: "example_full\<lparr> rolling_back := True, object_logs := [], array_logs := [],
                     intern_string_logs := [], resolve_string_logs := [],
                     rolling_back := False \<rparr> = Transaction_init True 0x2000"
    by (simp add: example_full_def example_logged_def Transaction_init_def)
  from s r h n show ?thesis unfolding w5 w4 w3 w2 w1 w0 by (simp add: a o m t)
qed

section \<open>Protected slots\<close>

text \<open>
  C5. \<open>ObjectLog::Undo\<close> makes one field write for every logged offset that is not
  protected, in log order, and none for the others: no write of the undo goes to the
  class slot, none goes to the length slot when the object is an array instance, and
  every logged offset other than these is written back.
\<close>

theorem ObjectLog_Undo_protected_slots:
  "ObjectLog_Undo rt ob log =
     map (\<lambda>entry. FieldWrite (UndoFieldWrite ob (fst entry) (snd entry)))
       (filter (\<lambda>entry. \<not> protected_slot rt ob (fst entry)) log)
   \<and> (\<forall>e \<in> set (ObjectLog_Undo rt ob log). \<forall>ob'.
         \<not> writes_field ob' (ClassOffset rt) e
         \<and> (IsArrayInstance rt ob \<longrightarrow> \<not> writes_field ob' (LengthOffset rt) e))
   \<and> (\<forall>off fv. (off, fv) \<in> set log \<and> off \<noteq> ClassOffset rt
         \<and> \<not> (IsArrayInstance rt ob \<and> off = LengthOffset rt)
         \<longrightarrow> FieldWrite (UndoFieldWrite ob off fv) \<in> set (ObjectLog_Undo rt ob log))"
proof (intro conjI)
  show "ObjectLog_Undo rt ob log =
     map (\<lambda>entry. FieldWrite (UndoFieldWrite ob (fst entry) (snd entry)))
       (filter (\<lambda>entry. \<not> protected_slot rt ob (fst entry)) log)"
    by (rule ObjectLog_Undo_eq)
  show "\<forall>e \<in> set (ObjectLog_Undo rt ob log). \<forall>ob'.
         \<not> writes_field ob' (ClassOffset rt) e
         \<and> (IsArrayInstance rt ob \<longrightarrow> \<not> writes_field ob' (LengthOffset rt) e)"
    by (auto simp: ObjectLog_Undo_eq field_write_target_UndoFieldWrite protected_slot_def)
  show "\<forall>off fv. (off, fv) \<in> set log \<and> off \<noteq> ClassOffset rt
         \<and> \<not> (IsArrayInstance rt ob \<and> off = LengthOffset rt)
         \<longrightarrow> FieldWrite (UndoFieldWrite ob off fv) \<in> set (ObjectLog_Undo rt ob log)"
    by (force simp: ObjectLog_Undo_eq protected_slot_def)
qed

theorem ObjectLog_Undo_protected_slots_witness:
  "ObjectLog_Undo example_runtime 0x3100
     [(0, \<lparr> fv_value = 5, fv_kind = kReference, fv_is_volatile = False \<rparr>),
      (8, \<lparr> fv_value = 6, fv_kind = k32Bits, fv_is_volatile = False \<rparr>),
      (12, \<lparr> fv_value = 7, fv_kind = k32Bits, fv_is_volatile = True \<rparr>)]
   = [FieldWrite (SetField32Volatile 0x3100 12 7)]
   \<and> ObjectLog_Undo example_runtime 0x3000
     [(0, \<lparr> fv_value = 5, fv_kind = kReference, fv_is_volatile = False \<rparr>),
      (8, \<lparr> fv_value = 6, fv_kind = k32Bits, fv_is_volatile = False \<rparr>),
      (12, \<lparr> fv_value = 7, fv_kind = k32Bits, fv_is_volatile = True \<rparr>)]
   = [FieldWrite (SetField32 0x3000 8 6), FieldWrite (SetField32Volatile 0x3000 12 7)]
   \<and> IsArrayInstance example_runtime 0x3100
   \<and> \<not> writes_field 0x3100 (ClassOffset example_runtime)
         (FieldWrite (SetField32Volatile 0x3100 12 7))
   \<and> \<not> writes_field 0x3100 (LengthOffset example_runtime)
         (FieldWrite (SetField32Volatile 0x3100 12 7))"
  using ObjectLog_Undo_protected_slots [of example_runtime "0x3100"
      "[(0, \<lparr> fv_value = 5, fv_kind = kReference, fv_is_volatile = False \<rparr>),
        (8, \<lparr> fv_value = 6, fv_kind = k32Bits, fv_is_volatile = False \<rparr>),
        (12, \<lparr> fv_value = 7, fv_kind = k32Bits, fv_is_volatile = True \<rparr>)]"]
    ObjectLog_Undo_protected_slots [of example_runtime "0x3000"
      "[(0, \<lparr> fv_value = 5, fv_kind = kReference, fv_is_volatile = False \<rparr>),
        (8, \<lparr> fv_value = 6, fv_kind = k32Bits, fv_is_volatile = False \<rparr>),
        (12, \<lparr> fv_value = 7, fv_kind = k32Bits, fv_is_volatile = True \<rparr>)]"]
  by (simp add: example_runtime_def protected_slot_def UndoFieldWrite_def)

section \<open>Interned strings\<close>

lemma LogInternedString_ok:
  assumes "InternTableLockHeld rt" "assert_no_new_records_reason t = None"
  shows "LogInternedString rt log t = Inr (t\<lparr> intern_string_logs := log # intern_string_logs t \<rparr>)"
  using assms by (simp add: LogInternedString_def dcheck_def)

lemma Record_String_ok:
  assumes "s \<noteq> nullptr" "InternTableLockHeld rt" "assert_no_new_records_reason t = None"
  shows "RecordStrongStringInsertion rt s t =
           Inr (t\<lparr> intern_string_logs :=
                    \<lparr> str = s, string_kind = kStrongString, string_op = kInsert \<rparr>
                    # intern_string_logs t \<rparr>)"
    and "RecordWeakStringInsertion rt s t =
           Inr (t\<lparr> intern_string_logs :=
                    \<lparr> str = s, string_kind = kWeakString, string_op = kInsert \<rparr>
                    # intern_string_logs t \<rparr>)"
    and "RecordStrongStringRemoval rt s t =
           Inr (t\<lparr> intern_string_logs :=
                    \<lparr> str = s, string_kind = kStrongString, string_op = kRemove \<rparr>
                    # intern_string_logs t \<rparr>)"
    and "RecordWeakStringRemoval rt s t =
           Inr (t\<lparr> intern_string_logs :=
                    \<lparr> str = s, string_kind = kWeakString, string_op = kRemove \<rparr>
                    # intern_string_logs t \<rparr>)"
  using assms
  by (simp_all add: RecordStrongStringInsertion_def RecordWeakStringInsertion_def
      RecordStrongStringRemoval_def RecordWeakStringRemoval_def InternStringLog_new_def
      LogInternedString_ok dcheck_def)

lemma InternStringLog_Undo_op_inverse:
  "InternStringLog_Undo_op \<lparr> str = s, string_kind = kStrongString, string_op = kInsert \<rparr>
     = RemoveStrongFromTransaction s"
  "InternStringLog_Undo_op \<lparr> str = s, string_kind = kWeakString, string_op = kInsert \<rparr>
     = RemoveWeakFromTransaction s"
  "InternStringLog_Undo_op \<lparr> str = s, string_kind = kStrongString, string_op = kRemove \<rparr>
     = InsertStrongFromTransaction s"
  "InternStringLog_Undo_op \<lparr> str = s, string_kind = kWeakString, string_op = kRemove \<rparr>
     = InsertWeakFromTransaction s"
  by (simp_all add: InternStringLog_Undo_op_def)

lemma InternStringLog_Undo_inverse:
  assumes "GetInternTable rt \<noteq> nullptr"
  shows "InternStringLog_Undo rt \<lparr> str = s, string_kind = kStrongString, string_op = kInsert \<rparr>
           = Inr (RemoveStrongFromTransaction s)"
    and "InternStringLog_Undo rt \<lparr> str = s, string_kind = kWeakString, string_op = kInsert \<rparr>
           = Inr (RemoveWeakFromTransaction s)"
    and "InternStringLog_Undo rt \<lparr> str = s, string_kind = kStrongString, string_op = kRemove \<rparr>
           = Inr (InsertStrongFromTransaction s)"
    and "InternStringLog_Undo rt \<lparr> str = s, string_kind = kWeakString, string_op = kRemove \<rparr>
           = Inr (InsertWeakFromTransaction s)"
  using assms
  by (simp_all add: InternStringLog_Undo_def dcheck_def InternStringLog_Undo_op_inverse)

lemma filter_InternOp_FieldWrites:
  "list_all is_FieldWrite ws \<Longrightarrow> filter is_InternOp ws = []"
  by (induction ws) (auto simp: is_FieldWrite_def)

lemma filter_InternOp_ArrayWrites:
  "list_all is_ArrayWrite ws \<Longrightarrow> filter is_InternOp ws = []"
  by (induction ws) (auto simp: is_ArrayWrite_def)

lemma filter_InternOp_ClearStrings:
  "filter is_InternOp (map ResolveStringLog_Undo rs) = []"
  by (induction rs) (auto simp: ResolveStringLog_Undo_def)

lemma filter_InternOp_InternOps:
  "filter is_InternOp (map (\<lambda>log. InternOp (f log)) ls) = map (\<lambda>log. InternOp (f log)) ls"
  by (induction ls) auto

lemma foldl_apply_effect_filter:
  "foldl apply_effect tbl tr = foldl apply_effect tbl (filter is_InternOp tr)"
proof (induction tr arbitrary: tbl)
  case Nil
  then show ?case by simp
next
  case (Cons e tr)
  then show ?case by (cases e) simp_all
qed

lemma Rollback_intern_ops:
  assumes "\<not> IsActiveTransaction rt" "\<not> PendingException rt" "array_logs_undoable rt t"
    "GetInternTable rt \<noteq> nullptr"
  shows "\<exists>t' tr. Rollback rt t = Inr (t', tr)
           \<and> filter is_InternOp tr
               = map (\<lambda>log. InternOp (InternStringLog_Undo_op log)) (intern_string_logs t)"
proof -
  from Rollback_ok [OF assms] obtain arr t' where
    arr: "list_all is_ArrayWrite arr"
    and r: "Rollback rt t =
          Inr (t', UndoObjectLogs rt (object_logs t) @ arr
               @ map (\<lambda>log. InternOp (InternStringLog_Undo_op log)) (intern_string_logs t)
               @ map ResolveStringLog_Undo (resolve_string_logs t))"
    by blast
  have "filter is_InternOp
          (UndoObjectLogs rt (object_logs t) @ arr
           @ map (\<lambda>log. InternOp (InternStringLog_Undo_op log)) (intern_string_logs t)
           @ map ResolveStringLog_Undo (resolve_string_logs t))
        = map (\<lambda>log. InternOp (InternStringLog_Undo_op log)) (intern_string_logs t)"
    using arr list_all_FieldWrite_UndoObjectLogs [of rt "object_logs t"]
    by (simp add: filter_InternOp_FieldWrites filter_InternOp_ArrayWrites
        filter_InternOp_ClearStrings filter_InternOp_InternOps)
  with r show ?thesis by simp
qed

lemma strong_insert_then_remove:
  assumes "s \<noteq> nullptr" "InternTableLockHeld rt" "assert_no_new_records_reason t = None"
    and "\<not> IsActiveTransaction rt" "\<not> PendingException rt" "array_logs_undoable rt t"
    and "GetInternTable rt \<noteq> nullptr"
  shows "\<exists>t1 t2 t' tr.
           RecordStrongStringInsertion rt s t = Inr t1
         \<and> RecordStrongStringRemoval rt s t1 = Inr t2
         \<and> Rollback rt t2 = Inr (t', tr)
         \<and> filter is_InternOp tr
             = InternOp (InsertStrongFromTransaction s)
               # InternOp (RemoveStrongFromTransaction s)
               # map (\<lambda>log. InternOp (InternStringLog_Undo_op log)) (intern_string_logs t)
         \<and> (intern_string_logs t = [] \<longrightarrow>
               s \<notin> strong_interns (foldl apply_effect tbl tr)
               \<and> strong_interns (foldl apply_effect tbl tr) = strong_interns tbl - {s}
               \<and> weak_interns (foldl apply_effect tbl tr) = weak_interns tbl)"
proof -
  let ?i = "\<lparr> str = s, string_kind = kStrongString, string_op = kInsert \<rparr>"
  let ?r = "\<lparr> str = s, string_kind = kStrongString, string_op = kRemove \<rparr>"
  let ?t1 = "t\<lparr> intern_string_logs := ?i # intern_string_logs t \<rparr>"
  let ?t2 = "?t1\<lparr> intern_string_logs := ?r # intern_string_logs ?t1 \<rparr>"
  have r1: "RecordStrongStringInsertion rt s t = Inr ?t1"
    using assms(1-3) by (rule Record_String_ok)
  have "assert_no_new_records_reason ?t1 = None" using assms(3) by simp
  with assms(1,2) have r2: "RecordStrongStringRemoval rt s ?t1 = Inr ?t2"
    by (rule Record_String_ok)
  have "array_logs_undoable rt ?t2" using assms(6) by (simp add: array_logs_undoable_def)
  from Rollback_intern_ops [OF assms(4,5) this assms(7)] obtain t' tr where
    rb: "Rollback rt ?t2 = Inr (t', tr)"
    and f: "filter is_InternOp tr
        = InternOp (InsertStrongFromTransaction s)
          # InternOp (RemoveStrongFromTransaction s)
          # map (\<lambda>log. InternOp (InternStringLog_Undo_op log)) (intern_string_logs t)"
    by (auto simp: InternStringLog_Undo_op_inverse)
  have "s \<notin> strong_interns (foldl apply_effect tbl tr)
        \<and> strong_interns (foldl apply_effect tbl tr) = strong_interns tbl - {s}
        \<and> weak_interns (foldl apply_effect tbl tr) = weak_interns tbl"
    if "intern_string_logs t = []"
    using that by (simp add: foldl_apply_effect_filter [of tbl tr] f)
  with r1 r2 rb f show ?thesis by blast
qed

lemma weak_insert_then_remove:
  assumes "s \<noteq> nullptr" "InternTableLockHeld rt" "assert_no_new_records_reason t = None"
    and "\<not> IsActiveTransaction rt" "\<not> PendingException rt" "array_logs_undoable rt t"
    and "GetInternTable rt \<noteq> nullptr"
  shows "\<exists>t1 t2 t' tr.
           RecordWeakStringInsertion rt s t = Inr t1
         \<and> RecordWeakStringRemoval rt s t1 = Inr t2
         \<and> Rollback rt t2 = Inr (t', tr)
         \<and> filter is_InternOp tr
             = InternOp (InsertWeakFromTransaction s)
               # InternOp (RemoveWeakFromTransaction s)
               # map (\<lambda>log. InternOp (InternStringLog_Undo_op log)) (intern_string_logs t)
         \<and> (intern_string_logs t = [] \<longrightarrow>
               s \<notin> weak_interns (foldl apply_effect tbl tr)
               \<and> weak_interns (foldl apply_effect tbl tr) = weak_interns tbl - {s}
               \<and> strong_interns (foldl apply_effect tbl tr) = strong_interns tbl)"
proof -
  let ?i = "\<lparr> str = s, string_kind = kWeakString, string_op = kInsert \<rparr>"
  let ?r = "\<lparr> str = s, string_kind = kWeakString, string_op = kRemove \<rparr>"
  let ?t1 = "t\<lparr> intern_string_logs := ?i # intern_string_logs t \<rparr>"
  let ?t2 = "?t1\<lparr> intern_string_logs := ?r # intern_string_logs ?t1 \<rparr>"
  have r1: "RecordWeakStringInsertion rt s t = Inr ?t1"
    using assms(1-3) by (rule Record_String_ok)
  have "assert_no_new_records_reason ?t1 = None" using assms(3) by simp
  with assms(1,2) have r2: "RecordWeakStringRemoval rt s ?t1 = Inr ?t2"
    by (rule Record_String_ok)
  have "array_logs_undoable rt ?t2" using assms(6) by (simp add: array_logs_undoable_def)
  from Rollback_intern_ops [OF assms(4,5) this assms(7)] obtain t' tr where
    rb: "Rollback rt ?t2 = Inr (t', tr)"
    and f: "filter is_InternOp tr
        = InternOp (InsertWeakFromTransaction s)
          # InternOp (RemoveWeakFromTransaction s)
          # map (\<lambda>log. InternOp (InternStringLog_Undo_op log)) (intern_string_logs t)"
    by (auto simp: InternStringLog_Undo_op_inverse)
  have "s \<notin> weak_interns (foldl apply_effect tbl tr)
        \<and> weak_interns (foldl apply_effect tbl tr) = weak_interns tbl - {s}
        \<and> strong_interns (foldl apply_effect tbl tr) = strong_interns tbl"
    if "intern_string_logs t = []"
    using that by (simp add: foldl_apply_effect_filter [of tbl tr] f)
  with r1 r2 rb f show ?thesis by blast
qed

text \<open>
  C4. With a non-null string, the interning-table lock held and no reentrancy guard, each
  of the four \<open>Record*String*\<close> calls returns and puts its entry at the front of the
  sequence. The undo phase calls the table once per entry, in sequence order, so most
  recent first; the call for an insert entry is the removal from the table the entry
  names, the call for a remove entry is the insertion into it. Recording insert(S) then
  remove(S) and rolling back (under the preconditions of \<open>Rollback\<close>) calls the table first to insert S and then to remove it,
  before the undo of the older entries; where there are no older entries, S is absent
  from the tier afterwards and the other tier is as before (the table being the pair of
  sets of the spec).
\<close>

theorem intern_undo_lifo:
  assumes "s \<noteq> nullptr" "InternTableLockHeld rt" "assert_no_new_records_reason t = None"
    and "\<not> IsActiveTransaction rt" "\<not> PendingException rt" "array_logs_undoable rt t"
    and "GetInternTable rt \<noteq> nullptr"
  shows "RecordStrongStringInsertion rt s t =
           Inr (t\<lparr> intern_string_logs :=
                    \<lparr> str = s, string_kind = kStrongString, string_op = kInsert \<rparr>
                    # intern_string_logs t \<rparr>)
       \<and> RecordWeakStringInsertion rt s t =
           Inr (t\<lparr> intern_string_logs :=
                    \<lparr> str = s, string_kind = kWeakString, string_op = kInsert \<rparr>
                    # intern_string_logs t \<rparr>)
       \<and> RecordStrongStringRemoval rt s t =
           Inr (t\<lparr> intern_string_logs :=
                    \<lparr> str = s, string_kind = kStrongString, string_op = kRemove \<rparr>
                    # intern_string_logs t \<rparr>)
       \<and> RecordWeakStringRemoval rt s t =
           Inr (t\<lparr> intern_string_logs :=
                    \<lparr> str = s, string_kind = kWeakString, string_op = kRemove \<rparr>
                    # intern_string_logs t \<rparr>)
       \<and> UndoInternStringTableModifications rt (t, done) =
           Inr (t\<lparr> intern_string_logs := [] \<rparr>,
                done @ map (\<lambda>log. InternOp (InternStringLog_Undo_op log)) (intern_string_logs t))
       \<and> InternStringLog_Undo rt \<lparr> str = s, string_kind = kStrongString, string_op = kInsert \<rparr>
           = Inr (RemoveStrongFromTransaction s)
       \<and> InternStringLog_Undo rt \<lparr> str = s, string_kind = kWeakString, string_op = kInsert \<rparr>
           = Inr (RemoveWeakFromTransaction s)
       \<and> InternStringLog_Undo rt \<lparr> str = s, string_kind = kStrongString, string_op = kRemove \<rparr>
           = Inr (InsertStrongFromTransaction s)
       \<and> InternStringLog_Undo rt \<lparr> str = s, string_kind = kWeakString, string_op = kRemove \<rparr>
           = Inr (InsertWeakFromTransaction s)
       \<and> (\<exists>t1 t2 t' tr.
             RecordStrongStringInsertion rt s t = Inr t1
           \<and> RecordStrongStringRemoval rt s t1 = Inr t2
           \<and> Rollback rt t2 = Inr (t', tr)
           \<and> filter is_InternOp tr
               = InternOp (InsertStrongFromTransaction s)
                 # InternOp (RemoveStrongFromTransaction s)
                 # map (\<lambda>log. InternOp (InternStringLog_Undo_op log)) (intern_string_logs t)
           \<and> (intern_string_logs t = [] \<longrightarrow>
                 s \<notin> strong_interns (foldl apply_effect tbl tr)
                 \<and> strong_interns (foldl apply_effect tbl tr) = strong_interns tbl - {s}
                 \<and> weak_interns (foldl apply_effect tbl tr) = weak_interns tbl))
       \<and> (\<exists>t1 t2 t' tr.
             RecordWeakStringInsertion rt s t = Inr t1
           \<and> RecordWeakStringRemoval rt s t1 = Inr t2
           \<and> Rollback rt t2 = Inr (t', tr)
           \<and> filter is_InternOp tr
               = InternOp (InsertWeakFromTransaction s)
                 # InternOp (RemoveWeakFromTransaction s)
                 # map (\<lambda>log. InternOp (InternStringLog_Undo_op log)) (intern_string_logs t)
           \<and> (intern_string_logs t = [] \<longrightarrow>
                 s \<notin> weak_interns (foldl apply_effect tbl tr)
                 \<and> weak_interns (foldl apply_effect tbl tr) = weak_interns tbl - {s}
                 \<and> strong_interns (foldl apply_effect tbl tr) = strong_interns tbl))"
  by (intro conjI Record_String_ok [OF assms(1-3)] InternStringLog_Undo_inverse [OF assms(7)]
      strong_insert_then_remove [OF assms] weak_insert_then_remove [OF assms])
    (simp add: UndoInternStringTableModifications_def UndoInternStringLogs_ok [OF assms(7)])

theorem intern_undo_lifo_witness:
  "(0x3400 :: obj) \<noteq> nullptr \<and> InternTableLockHeld example_runtime
   \<and> assert_no_new_records_reason (Transaction_init True 0x2000) = None
   \<and> \<not> IsActiveTransaction example_runtime \<and> \<not> PendingException example_runtime
   \<and> array_logs_undoable example_runtime (Transaction_init True 0x2000)
   \<and> GetInternTable example_runtime \<noteq> nullptr
   \<and> intern_string_logs (Transaction_init True 0x2000) = []
   \<and> (\<exists>t1 t2 t' tr.
         RecordStrongStringInsertion example_runtime 0x3400 (Transaction_init True 0x2000) = Inr t1
       \<and> RecordStrongStringRemoval example_runtime 0x3400 t1 = Inr t2
       \<and> Rollback example_runtime t2 = Inr (t', tr)
       \<and> filter is_InternOp tr
           = [InternOp (InsertStrongFromTransaction 0x3400),
              InternOp (RemoveStrongFromTransaction 0x3400)]
       \<and> 0x3400 \<notin> strong_interns
             (foldl apply_effect \<lparr> strong_interns = {}, weak_interns = {0x3400} \<rparr> tr)
       \<and> weak_interns (foldl apply_effect \<lparr> strong_interns = {}, weak_interns = {0x3400} \<rparr> tr)
           = {0x3400})"
proof -
  have h: "(0x3400 :: obj) \<noteq> nullptr" "InternTableLockHeld example_runtime"
    "assert_no_new_records_reason (Transaction_init True 0x2000) = None"
    "\<not> IsActiveTransaction example_runtime" "\<not> PendingException example_runtime"
    "array_logs_undoable example_runtime (Transaction_init True 0x2000)"
    "GetInternTable example_runtime \<noteq> nullptr"
    and e: "intern_string_logs (Transaction_init True 0x2000) = []"
    by (simp_all add: example_runtime_def Transaction_init_def array_logs_undoable_def
        nullptr_def)
  let ?tbl = "\<lparr> strong_interns = {}, weak_interns = {0x3400} \<rparr>"
  from intern_undo_lifo [OF h, of "[]" ?tbl]
  obtain t1 t2 t' tr where
    r: "RecordStrongStringInsertion example_runtime 0x3400 (Transaction_init True 0x2000) = Inr t1"
      "RecordStrongStringRemoval example_runtime 0x3400 t1 = Inr t2"
      "Rollback example_runtime t2 = Inr (t', tr)"
    and f: "filter is_InternOp tr
        = InternOp (InsertStrongFromTransaction 0x3400)
          # InternOp (RemoveStrongFromTransaction 0x3400)
          # map (\<lambda>log. InternOp (InternStringLog_Undo_op log))
              (intern_string_logs (Transaction_init True 0x2000))"
    and a: "intern_string_logs (Transaction_init True 0x2000) = [] \<longrightarrow>
        0x3400 \<notin> strong_interns (foldl apply_effect ?tbl tr)
        \<and> strong_interns (foldl apply_effect ?tbl tr) = strong_interns ?tbl - {0x3400}
        \<and> weak_interns (foldl apply_effect ?tbl tr) = weak_interns ?tbl"
    by (elim conjE exE)
  from f e have f': "filter is_InternOp tr
        = [InternOp (InsertStrongFromTransaction 0x3400),
           InternOp (RemoveStrongFromTransaction 0x3400)]"
    by simp
  from a e have a': "0x3400 \<notin> strong_interns (foldl apply_effect ?tbl tr)"
    "weak_interns (foldl apply_effect ?tbl tr) = {0x3400}"
    by simp_all
  from r f' a' have "\<exists>t1 t2 t' tr.
         RecordStrongStringInsertion example_runtime 0x3400 (Transaction_init True 0x2000) = Inr t1
       \<and> RecordStrongStringRemoval example_runtime 0x3400 t1 = Inr t2
       \<and> Rollback example_runtime t2 = Inr (t', tr)
       \<and> filter is_InternOp tr
           = [InternOp (InsertStrongFromTransaction 0x3400),
              InternOp (RemoveStrongFromTransaction 0x3400)]
       \<and> 0x3400 \<notin> strong_interns (foldl apply_effect ?tbl tr)
       \<and> weak_interns (foldl apply_effect ?tbl tr) = {0x3400}"
    by blast
  with h e show ?thesis by simp
qed

section \<open>Re-keying\<close>

lemma VisitObjectLogs_visit_eq:
  "VisitObjectLogs_visit v logs =
     (map (\<lambda>entry. (fst entry, ObjectLog_VisitRoots v (snd entry))) logs,
      moving_roots v (map fst logs))"
  by (induction logs) (auto simp: moving_roots_def)

lemma map_of_visited_logs:
  "map_of (map (\<lambda>entry. (fst entry, f (snd entry))) logs) k = map_option f (map_of logs k)"
  by (induction logs) auto

lemma keys_visited_logs: "map fst (map (\<lambda>entry. (fst entry, f (snd entry))) logs) = map fst logs"
  by (induction logs) auto

lemma map_of_ObjectLog_VisitRoots:
  "map_of (ObjectLog_VisitRoots v log) off =
     map_option (\<lambda>fv. if fv_kind fv = kReference
                       then fv\<lparr> fv_value := VisitRootIfNonNull v (fv_value fv) \<rparr> else fv)
       (map_of log off)"
  by (induction log) auto

lemma keys_ObjectLog_VisitRoots: "map fst (ObjectLog_VisitRoots v log) = map fst log"
  by (induction log) auto

lemma update_moving_roots_step:
  assumes "map_of logs old = Some log" "map_of logs new = None"
  shows "update_moving_roots ((old, new) # rest) logs =
           update_moving_roots rest (map_erase old (map_emplace new log logs))"
    and "map_of (map_erase old (map_emplace new log logs)) = (map_of logs)(new \<mapsto> log, old := None)"
    and "distinct (map fst logs) \<Longrightarrow> distinct (map fst (map_erase old (map_emplace new log logs)))"
  using assms
  by (simp_all add: check_def map_of_map_erase map_of_map_emplace distinct_map_erase
      distinct_map_emplace)

lemma update_moving_roots_collision:
  assumes "map_of logs old = Some log" "map_of logs new \<noteq> None"
  shows "update_moving_roots ((old, new) # rest) logs =
           Inl (CheckFailed ''logs_.find(new_root) == logs_.end()'')"
  using assms by (simp add: check_def)

lemma update_moving_roots_correct:
  assumes "update_moving_roots ps m = Inr m'" "distinct (map fst ps)"
    "fst ` set ps \<subseteq> dom (map_of m)"
  shows "(\<forall>k. k \<in> dom (map_of m) \<and> k \<notin> fst ` set ps \<longrightarrow> map_of m' k = map_of m k)
         \<and> (\<forall>old new. (old, new) \<in> set ps \<longrightarrow> map_of m' new = map_of m old)
         \<and> dom (map_of m') = (dom (map_of m) - fst ` set ps) \<union> snd ` set ps
         \<and> (distinct (map fst m) \<longrightarrow> distinct (map fst m'))
         \<and> (list_all (\<lambda>entry. P (snd entry)) m \<longrightarrow> list_all (\<lambda>entry. P (snd entry)) m')"
  using assms
proof (induction ps arbitrary: m)
  case Nil
  then show ?case by simp
next
  case (Cons p ps)
  obtain old new where p: "p = (old, new)" by (cases p)
  from Cons.prems(3) p obtain log where log: "map_of m old = Some log" by auto
  have absent: "map_of m new = None"
  proof (rule ccontr)
    assume "map_of m new \<noteq> None"
    with log have "update_moving_roots ((old, new) # ps) m =
        Inl (CheckFailed ''logs_.find(new_root) == logs_.end()'')"
      by (rule update_moving_roots_collision)
    with Cons.prems(1) p show False by simp
  qed
  let ?m1 = "map_erase old (map_emplace new log m)"
  note step = update_moving_roots_step(1) [OF log absent, of ps]
    update_moving_roots_step(2,3) [OF log absent]
  from Cons.prems(1) p step(1) have r: "update_moving_roots ps ?m1 = Inr m'" by simp
  from Cons.prems(2) p have d: "distinct (map fst ps)" and old_not: "old \<notin> fst ` set ps"
    by auto
  from log absent have ne: "new \<noteq> old" by auto
  have dom1: "dom (map_of ?m1) = (dom (map_of m) - {old}) \<union> {new}"
    using ne by (auto simp: step(2) split: if_splits)
  from Cons.prems(3) old_not have sub: "fst ` set ps \<subseteq> dom (map_of ?m1)"
    unfolding dom1 by auto
  from Cons.prems(3) absent have new_not: "new \<notin> fst ` set ps"
    by (auto simp: domIff)
  note IH = Cons.IH [OF r d sub]
  have a: "map_of m' k = map_of m k" if "k \<in> dom (map_of m)" "k \<notin> fst ` set (p # ps)" for k
  proof -
    from that p have k: "k \<noteq> old" "k \<notin> fst ` set ps" by auto
    from that(1) absent have "k \<noteq> new" by auto
    with k that(1) have "k \<in> dom (map_of ?m1)" unfolding dom1 by simp
    with IH k(2) have "map_of m' k = map_of ?m1 k" by blast
    with k(1) \<open>k \<noteq> new\<close> show ?thesis by (simp add: step(2))
  qed
  have b: "map_of m' n = map_of m o'" if "(o', n) \<in> set (p # ps)" for o' n
  proof (cases "(o', n) = (old, new)")
    case True
    have "new \<in> dom (map_of ?m1)" unfolding dom1 by simp
    with IH new_not have "map_of m' new = map_of ?m1 new" by blast
    with ne True show ?thesis by (simp add: step(2) log)
  next
    case False
    with that p have in_ps: "(o', n) \<in> set ps" by auto
    with IH have "map_of m' n = map_of ?m1 o'" by blast
    moreover from in_ps old_not have "o' \<noteq> old" by force
    moreover from in_ps new_not have "o' \<noteq> new" by force
    ultimately show ?thesis by (simp add: step(2))
  qed
  have c: "dom (map_of m') = (dom (map_of m) - fst ` set (p # ps)) \<union> snd ` set (p # ps)"
  proof -
    from IH have "dom (map_of m') = (dom (map_of ?m1) - fst ` set ps) \<union> snd ` set ps"
      by blast
    with new_not p show ?thesis unfolding dom1 by auto
  qed
  have e: "distinct (map fst m')" if "distinct (map fst m)"
  proof -
    from that have "distinct (map fst ?m1)" by (rule step(3))
    with IH show ?thesis by blast
  qed
  have f: "list_all (\<lambda>entry. P (snd entry)) m'" if "list_all (\<lambda>entry. P (snd entry)) m"
  proof -
    from list_all_map_of [OF that log] have "P log" by simp
    with that absent have "list_all (\<lambda>entry. P (snd entry)) ?m1"
      by (simp add: list_all_map_erase list_all_map_emplace)
    with IH show ?thesis by blast
  qed
  from a b c e f show ?case by blast
qed


lemma update_moving_roots_ok:
  assumes "distinct (map fst ps)" "fst ` set ps \<subseteq> dom (map_of m)"
    "distinct (map snd ps)" "snd ` set ps \<inter> dom (map_of m) = {}"
  shows "\<exists>m'. update_moving_roots ps m = Inr m'"
  using assms
proof (induction ps arbitrary: m)
  case Nil
  then show ?case by simp
next
  case (Cons p ps)
  obtain old new where p: "p = (old, new)" by (cases p)
  from Cons.prems(2) p obtain log where log: "map_of m old = Some log" by auto
  from Cons.prems(4) p have absent: "map_of m new = None" by (auto simp: domIff)
  let ?m1 = "map_erase old (map_emplace new log m)"
  note step = update_moving_roots_step(1) [OF log absent, of ps]
    update_moving_roots_step(2) [OF log absent]
  from log absent have ne: "new \<noteq> old" by auto
  have dom1: "dom (map_of ?m1) = (dom (map_of m) - {old}) \<union> {new}"
    using ne by (auto simp: step(2) split: if_splits)
  from Cons.prems(1,3) p have d: "distinct (map fst ps)" "distinct (map snd ps)"
    and old_not: "old \<notin> fst ` set ps" and new_not: "new \<notin> snd ` set ps"
    by auto
  from Cons.prems(2) old_not have sub: "fst ` set ps \<subseteq> dom (map_of ?m1)"
    unfolding dom1 by auto
  from Cons.prems(4) new_not have disj: "snd ` set ps \<inter> dom (map_of ?m1) = {}"
    unfolding dom1 by auto
  from Cons.IH [OF d(1) sub d(2) disj] p step(1) show ?case by simp
qed

lemma moving_roots_props:
  "map fst (moving_roots v keys) = filter (\<lambda>k. v k \<noteq> k) keys"
  "map snd (moving_roots v keys) = map v (filter (\<lambda>k. v k \<noteq> k) keys)"
  "set (moving_roots v keys) = {(k, v k) | k. k \<in> set keys \<and> v k \<noteq> k}"
  by (induction keys) (auto simp: moving_roots_def)

lemma moving_roots_olds:
  "fst ` set (moving_roots v (map fst m)) = {k \<in> dom (map_of m). v k \<noteq> k}"
proof -
  have "fst ` set (moving_roots v (map fst m)) = set (map fst (moving_roots v (map fst m)))"
    by simp
  also have "\<dots> = set (filter (\<lambda>k. v k \<noteq> k) (map fst m))"
    by (simp only: moving_roots_props(1))
  also have "\<dots> = {k \<in> dom (map_of m). v k \<noteq> k}"
    by (auto simp: dom_map_of_conv_image_fst)
  finally show ?thesis .
qed

lemma moving_roots_news:
  "snd ` set (moving_roots v (map fst m)) = v ` {k \<in> dom (map_of m). v k \<noteq> k}"
proof -
  have "snd ` set (moving_roots v (map fst m)) = set (map snd (moving_roots v (map fst m)))"
    by simp
  also have "\<dots> = v ` set (filter (\<lambda>k. v k \<noteq> k) (map fst m))"
    by (simp only: moving_roots_props(2) set_map)
  also have "\<dots> = v ` {k \<in> dom (map_of m). v k \<noteq> k}"
    by (auto simp: dom_map_of_conv_image_fst)
  finally show ?thesis .
qed

lemma rekey_correct:
  assumes "distinct (map fst m)" "update_moving_roots (moving_roots v (map fst m)) m = Inr m'"
  shows "(\<forall>k log. map_of m k = Some log \<longrightarrow> map_of m' (v k) = Some log)
         \<and> dom (map_of m') = v ` dom (map_of m)
         \<and> distinct (map fst m')
         \<and> (list_all (\<lambda>entry. P (snd entry)) m \<longrightarrow> list_all (\<lambda>entry. P (snd entry)) m')"
proof -
  let ?ps = "moving_roots v (map fst m)"
  have d: "distinct (map fst ?ps)"
    using assms(1) by (simp add: moving_roots_props)
  have sub: "fst ` set ?ps \<subseteq> dom (map_of m)"
    unfolding moving_roots_olds by blast
  note c = update_moving_roots_correct [OF assms(2) d sub, of P]
  note olds = moving_roots_olds [of v m]
  note news = moving_roots_news [of v m]
  have a: "map_of m' (v k) = Some log" if "map_of m k = Some log" for k log
  proof (cases "v k = k")
    case True
    from that have "k \<in> dom (map_of m)" by auto
    moreover from True have "k \<notin> fst ` set ?ps" unfolding olds by simp
    ultimately have "map_of m' k = map_of m k" using c by blast
    with True that show ?thesis by simp
  next
    case False
    from map_of_SomeD [OF that] have "k \<in> set (map fst m)" by force
    with False have "(k, v k) \<in> set ?ps" by (simp add: moving_roots_props)
    with c have "map_of m' (v k) = map_of m k" by blast
    with that show ?thesis by simp
  qed
  from c have "dom (map_of m') = (dom (map_of m) - fst ` set ?ps) \<union> snd ` set ?ps" by blast
  then have b: "dom (map_of m') = v ` dom (map_of m)"
    unfolding olds news by force
  from a b c assms(1) show ?thesis by blast
qed

lemma rekey_ok:
  assumes "distinct (map fst m)" "moves_to_fresh v (map fst m)"
  shows "\<exists>m'. update_moving_roots (moving_roots v (map fst m)) m = Inr m'"
proof -
  let ?ps = "moving_roots v (map fst m)"
  from assms(2) have inj: "distinct (map v (map fst m))"
    and fresh: "\<forall>k \<in> set (map fst m). v k = k \<or> v k \<notin> set (map fst m)"
    by (simp_all add: moves_to_fresh_def list_all_iff)
  have d1: "distinct (map fst ?ps)"
    using assms(1) by (simp add: moving_roots_props)
  have sub: "fst ` set ?ps \<subseteq> dom (map_of m)"
    unfolding moving_roots_olds by blast
  have d2: "distinct (map snd ?ps)"
    using inj by (simp add: moving_roots_props distinct_map_filter)
  have disj: "snd ` set ?ps \<inter> dom (map_of m) = {}"
    unfolding moving_roots_news using fresh by (auto simp: dom_map_of_conv_image_fst)
  from d1 sub d2 disj show ?thesis by (rule update_moving_roots_ok)
qed

lemma VisitObjectLogs_correct:
  assumes "distinct (map fst (object_logs t))" "VisitObjectLogs v t = Inr t'"
  shows "(\<forall>k log. map_of (object_logs t) k = Some log \<longrightarrow>
            map_of (object_logs t') (v k) = Some (ObjectLog_VisitRoots v log))
         \<and> dom (map_of (object_logs t')) = v ` dom (map_of (object_logs t))
         \<and> distinct (map fst (object_logs t'))
         \<and> (list_all (\<lambda>entry. distinct (map fst (snd entry))) (object_logs t) \<longrightarrow>
              list_all (\<lambda>entry. distinct (map fst (snd entry))) (object_logs t'))
         \<and> t' = t\<lparr> object_logs := object_logs t' \<rparr>"
proof -
  let ?m = "map (\<lambda>entry. (fst entry, ObjectLog_VisitRoots v (snd entry))) (object_logs t)"
  have keys: "map fst ?m = map fst (object_logs t)" by (rule keys_visited_logs)
  have eq: "VisitObjectLogs v t =
      (case update_moving_roots (moving_roots v (map fst (object_logs t))) ?m of
         Inl e \<Rightarrow> Inl e | Inr logs'' \<Rightarrow> Inr (t\<lparr> object_logs := logs'' \<rparr>))"
    by (simp add: VisitObjectLogs_def VisitObjectLogs_visit_eq)
  from assms(2) obtain logs' where
    u0: "update_moving_roots (moving_roots v (map fst (object_logs t))) ?m = Inr logs'"
    and t': "t' = t\<lparr> object_logs := logs' \<rparr>"
    unfolding eq by (auto split: sum.splits)
  from u0 have u: "update_moving_roots (moving_roots v (map fst ?m)) ?m = Inr logs'"
    by (simp only: keys)
  from assms(1) have d: "distinct (map fst ?m)" by (simp only: keys)
  note c = rekey_correct [OF d u, of "\<lambda>log. distinct (map fst log)"]
  have dom_eq: "dom (map_of ?m) = dom (map_of (object_logs t))"
    by (simp only: dom_map_of_conv_image_fst keys flip: set_map)
  have a: "map_of logs' (v k) = Some (ObjectLog_VisitRoots v log)"
    if "map_of (object_logs t) k = Some log" for k log
  proof -
    from that have "map_of ?m k = Some (ObjectLog_VisitRoots v log)"
      by (simp add: map_of_visited_logs)
    with c show ?thesis by blast
  qed
  from c have b: "dom (map_of logs') = v ` dom (map_of (object_logs t))"
    unfolding dom_eq by blast
  have e: "list_all (\<lambda>entry. distinct (map fst (snd entry))) logs'"
    if "list_all (\<lambda>entry. distinct (map fst (snd entry))) (object_logs t)"
  proof -
    from that have "list_all (\<lambda>entry. distinct (map fst (snd entry))) ?m"
      by (simp add: list_all_iff keys_ObjectLog_VisitRoots)
    with c show ?thesis by blast
  qed
  from a b c e show ?thesis unfolding t' by simp
qed

lemma VisitObjectLogs_ok:
  assumes "distinct (map fst (object_logs t))" "moves_to_fresh v (map fst (object_logs t))"
  shows "\<exists>t'. VisitObjectLogs v t = Inr t'"
proof -
  let ?m = "map (\<lambda>entry. (fst entry, ObjectLog_VisitRoots v (snd entry))) (object_logs t)"
  have keys: "map fst ?m = map fst (object_logs t)" by (rule keys_visited_logs)
  from assms have "distinct (map fst ?m)" "moves_to_fresh v (map fst ?m)"
    by (simp_all only: keys)
  from rekey_ok [OF this] obtain logs' where
    "update_moving_roots (moving_roots v (map fst ?m)) ?m = Inr logs'" by blast
  then have "update_moving_roots (moving_roots v (map fst (object_logs t))) ?m = Inr logs'"
    by (simp only: keys)
  then show ?thesis
    by (simp add: VisitObjectLogs_def VisitObjectLogs_visit_eq)
qed

lemma VisitArrayLogs_visit_eq:
  "VisitArrayLogs_visit rt v logs =
     (if list_all (\<lambda>entry. \<not> IsObjectArray rt (fst entry)) logs
      then Inr (moving_roots v (map fst logs))
      else Inl (CheckFailed ''!old_root->IsObjectArray()''))"
  by (induction logs) (auto simp: check_def moving_roots_def)

lemma VisitArrayLogs_correct:
  assumes "distinct (map fst (array_logs t))" "VisitArrayLogs rt v t = Inr t'"
  shows "(\<forall>k log. map_of (array_logs t) k = Some log \<longrightarrow>
            map_of (array_logs t') (v k) = Some log)
         \<and> dom (map_of (array_logs t')) = v ` dom (map_of (array_logs t))
         \<and> distinct (map fst (array_logs t'))
         \<and> (list_all (\<lambda>entry. distinct (map fst (snd entry))) (array_logs t) \<longrightarrow>
              list_all (\<lambda>entry. distinct (map fst (snd entry))) (array_logs t'))
         \<and> t' = t\<lparr> array_logs := array_logs t' \<rparr>"
proof -
  from assms(2) obtain logs' where
    u: "update_moving_roots (moving_roots v (map fst (array_logs t))) (array_logs t) = Inr logs'"
    and t': "t' = t\<lparr> array_logs := logs' \<rparr>"
    by (auto simp: VisitArrayLogs_def VisitArrayLogs_visit_eq split: sum.splits if_splits)
  note c = rekey_correct [OF assms(1) u, of "\<lambda>log. distinct (map fst log)"]
  then show ?thesis unfolding t' by simp
qed

lemma VisitArrayLogs_ok:
  assumes "distinct (map fst (array_logs t))" "moves_to_fresh v (map fst (array_logs t))"
    "list_all (\<lambda>entry. \<not> IsObjectArray rt (fst entry)) (array_logs t)"
  shows "\<exists>t'. VisitArrayLogs rt v t = Inr t'"
proof -
  from rekey_ok [OF assms(1,2)] obtain logs' where
    "update_moving_roots (moving_roots v (map fst (array_logs t))) (array_logs t) = Inr logs'"
    by blast
  with assms(3) show ?thesis
    by (simp add: VisitArrayLogs_def VisitArrayLogs_visit_eq)
qed

lemma VisitRoots_correct:
  assumes "logs_distinct t" "VisitRoots rt v t = Inr t'"
  shows "(\<forall>k log. map_of (object_logs t) k = Some log \<longrightarrow>
            map_of (object_logs t') (v k) = Some (ObjectLog_VisitRoots v log))
         \<and> dom (map_of (object_logs t')) = v ` dom (map_of (object_logs t))
         \<and> (\<forall>k log. map_of (array_logs t) k = Some log \<longrightarrow>
              map_of (array_logs t') (v k) = Some log)
         \<and> dom (map_of (array_logs t')) = v ` dom (map_of (array_logs t))
         \<and> logs_distinct t' \<and> root t' = v (root t)"
proof -
  let ?t0 = "t\<lparr> root := v (root t) \<rparr>"
  from assms(2) obtain t1 t2 where
    o: "VisitObjectLogs v ?t0 = Inr t1" and a: "VisitArrayLogs rt v t1 = Inr t2"
    and t': "t' = VisitResolveStringLogs v (VisitInternStringLogs v t2)"
    by (auto simp: VisitRoots_def split: sum.splits)
  from assms(1) have d: "distinct (map fst (object_logs ?t0))"
    "list_all (\<lambda>entry. distinct (map fst (snd entry))) (object_logs ?t0)"
    "distinct (map fst (array_logs t))"
    "list_all (\<lambda>entry. distinct (map fst (snd entry))) (array_logs t)"
    by (simp_all add: logs_distinct_def)
  note c1 = VisitObjectLogs_correct [OF d(1) o]
  from c1 have t1: "t1 = ?t0\<lparr> object_logs := object_logs t1 \<rparr>" by blast
  have al: "array_logs t1 = array_logs t" by (subst t1) simp
  have r1: "root t1 = v (root t)" by (subst t1) simp
  from d(3) have d3: "distinct (map fst (array_logs t1))" by (simp only: al)
  note c2 = VisitArrayLogs_correct [OF d3 a]
  from c2 have t2: "t2 = t1\<lparr> array_logs := array_logs t2 \<rparr>" by blast
  have ol: "object_logs t2 = object_logs t1" by (subst t2) simp
  have r2: "root t2 = root t1" by (subst t2) simp
  have f: "object_logs t' = object_logs t1" "array_logs t' = array_logs t2" "root t' = v (root t)"
    unfolding t' by (simp_all add: VisitResolveStringLogs_def VisitInternStringLogs_def ol r1 r2)
  from c1 d(2) c2 d(4) have "logs_distinct t'"
    unfolding logs_distinct_def f al by simp
  with c1 c2 show ?thesis unfolding f al by simp
qed

lemma VisitRoots_ok:
  assumes "logs_distinct t" "moves_to_fresh v (map fst (object_logs t))"
    "moves_to_fresh v (map fst (array_logs t))"
    "list_all (\<lambda>entry. \<not> IsObjectArray rt (fst entry)) (array_logs t)"
  shows "\<exists>t'. VisitRoots rt v t = Inr t'"
proof -
  let ?t0 = "t\<lparr> root := v (root t) \<rparr>"
  from assms(1) have d: "distinct (map fst (object_logs ?t0))"
    "distinct (map fst (array_logs t))"
    by (simp_all add: logs_distinct_def)
  from assms(2) have "moves_to_fresh v (map fst (object_logs ?t0))" by simp
  from VisitObjectLogs_ok [OF d(1) this] obtain t1 where o: "VisitObjectLogs v ?t0 = Inr t1"
    by blast
  from VisitObjectLogs_correct [OF d(1) o] have t1: "t1 = ?t0\<lparr> object_logs := object_logs t1 \<rparr>"
    by blast
  have al: "array_logs t1 = array_logs t" by (subst t1) simp
  from d(2) assms(3,4) have "distinct (map fst (array_logs t1))"
    "moves_to_fresh v (map fst (array_logs t1))"
    "list_all (\<lambda>entry. \<not> IsObjectArray rt (fst entry)) (array_logs t1)"
    by (simp_all only: al)
  from VisitArrayLogs_ok [OF this] obtain t2 where "VisitArrayLogs rt v t1 = Inr t2" by blast
  with o show ?thesis by (simp add: VisitRoots_def)
qed

lemma update_moving_roots_move:
  assumes "map_of logs old = Some log"
  shows "if map_of logs new \<noteq> None
         then update_moving_roots ((old, new) # rest) logs =
                Inl (CheckFailed ''logs_.find(new_root) == logs_.end()'')
         else \<exists>logs1. update_moving_roots ((old, new) # rest) logs =
                  update_moving_roots rest logs1
                \<and> map_of logs1 = (map_of logs)(new \<mapsto> log, old := None)"
proof (cases "map_of logs new")
  case None
  have "update_moving_roots ((old, new) # rest) logs =
          update_moving_roots rest (map_erase old (map_emplace new log logs))
        \<and> map_of (map_erase old (map_emplace new log logs))
            = (map_of logs)(new \<mapsto> log, old := None)"
    using update_moving_roots_step(1) [OF assms None, of rest]
      update_moving_roots_step(2) [OF assms None]
    by (rule conjI)
  then have "\<exists>logs1. update_moving_roots ((old, new) # rest) logs =
                  update_moving_roots rest logs1
                \<and> map_of logs1 = (map_of logs)(new \<mapsto> log, old := None)"
    by (rule exI)
  with None show ?thesis by simp
next
  case (Some other)
  then have "map_of logs new \<noteq> None" by simp
  from update_moving_roots_collision [OF assms this, of rest] this show ?thesis by simp
qed

text \<open>
  C9. On a transaction whose maps hold each key once, if \<open>VisitRoots\<close> returns, every
  entry of the object-log and array-log collections is found under the new identity of
  its key: an array log as it was, an object log with the same offsets, kinds,
  volatility and non-reference values, its non-null reference values replaced by their
  new identities. The keys of each collection are then exactly the new identities of
  its old keys, so a key that moved is gone unless another key moved onto its address,
  and the maps still hold each key once. \<open>VisitRoots\<close> does return when no logged array
  is an object array and, in each collection, no two keys get the same new identity and
  no key moves onto a key of the collection. Each move checks that the new key is
  absent: where it is present the process ends, where it is absent the entry is
  inserted at the new key and the old key erased.
\<close>

theorem VisitRoots_rekeys:
  assumes "logs_distinct t"
  shows "(VisitRoots rt v t = Inr t' \<longrightarrow>
            (\<forall>k log. map_of (object_logs t) k = Some log \<longrightarrow>
               map_of (object_logs t') (v k) = Some (ObjectLog_VisitRoots v log))
          \<and> dom (map_of (object_logs t')) = v ` dom (map_of (object_logs t))
          \<and> (\<forall>k log. map_of (array_logs t) k = Some log \<longrightarrow>
               map_of (array_logs t') (v k) = Some log)
          \<and> dom (map_of (array_logs t')) = v ` dom (map_of (array_logs t))
          \<and> logs_distinct t' \<and> root t' = v (root t))
       \<and> (moves_to_fresh v (map fst (object_logs t))
          \<and> moves_to_fresh v (map fst (array_logs t))
          \<and> list_all (\<lambda>entry. \<not> IsObjectArray rt (fst entry)) (array_logs t)
          \<longrightarrow> (\<exists>t''. VisitRoots rt v t = Inr t''))
       \<and> (\<forall>log off.
            map_of (ObjectLog_VisitRoots v log) off =
              map_option (\<lambda>fv. if fv_kind fv = kReference
                                then fv\<lparr> fv_value := VisitRootIfNonNull v (fv_value fv) \<rparr>
                                else fv)
                (map_of log off))
       \<and> (\<forall>(logs :: (obj \<times> ObjectLog) list) old new log rest.
            map_of logs old = Some log \<longrightarrow>
              (if map_of logs new \<noteq> None
               then update_moving_roots ((old, new) # rest) logs =
                      Inl (CheckFailed ''logs_.find(new_root) == logs_.end()'')
               else \<exists>logs1. update_moving_roots ((old, new) # rest) logs =
                        update_moving_roots rest logs1
                      \<and> map_of logs1 = (map_of logs)(new \<mapsto> log, old := None)))
       \<and> (\<forall>(logs :: (obj \<times> ArrayLog) list) old new log rest.
            map_of logs old = Some log \<longrightarrow>
              (if map_of logs new \<noteq> None
               then update_moving_roots ((old, new) # rest) logs =
                      Inl (CheckFailed ''logs_.find(new_root) == logs_.end()'')
               else \<exists>logs1. update_moving_roots ((old, new) # rest) logs =
                        update_moving_roots rest logs1
                      \<and> map_of logs1 = (map_of logs)(new \<mapsto> log, old := None)))"
proof (intro conjI)
  show "VisitRoots rt v t = Inr t' \<longrightarrow>
            (\<forall>k log. map_of (object_logs t) k = Some log \<longrightarrow>
               map_of (object_logs t') (v k) = Some (ObjectLog_VisitRoots v log))
          \<and> dom (map_of (object_logs t')) = v ` dom (map_of (object_logs t))
          \<and> (\<forall>k log. map_of (array_logs t) k = Some log \<longrightarrow>
               map_of (array_logs t') (v k) = Some log)
          \<and> dom (map_of (array_logs t')) = v ` dom (map_of (array_logs t))
          \<and> logs_distinct t' \<and> root t' = v (root t)"
  proof (rule impI)
    assume "VisitRoots rt v t = Inr t'"
    with assms show "(\<forall>k log. map_of (object_logs t) k = Some log \<longrightarrow>
               map_of (object_logs t') (v k) = Some (ObjectLog_VisitRoots v log))
          \<and> dom (map_of (object_logs t')) = v ` dom (map_of (object_logs t))
          \<and> (\<forall>k log. map_of (array_logs t) k = Some log \<longrightarrow>
               map_of (array_logs t') (v k) = Some log)
          \<and> dom (map_of (array_logs t')) = v ` dom (map_of (array_logs t))
          \<and> logs_distinct t' \<and> root t' = v (root t)"
      by (rule VisitRoots_correct)
  qed
  show "moves_to_fresh v (map fst (object_logs t))
          \<and> moves_to_fresh v (map fst (array_logs t))
          \<and> list_all (\<lambda>entry. \<not> IsObjectArray rt (fst entry)) (array_logs t)
          \<longrightarrow> (\<exists>t''. VisitRoots rt v t = Inr t'')"
    by (intro impI, elim conjE) (rule VisitRoots_ok [OF assms])
  show "\<forall>log off.
            map_of (ObjectLog_VisitRoots v log) off =
              map_option (\<lambda>fv. if fv_kind fv = kReference
                                then fv\<lparr> fv_value := VisitRootIfNonNull v (fv_value fv) \<rparr>
                                else fv)
                (map_of log off)"
    by (simp add: map_of_ObjectLog_VisitRoots)
  show "\<forall>(logs :: (obj \<times> ObjectLog) list) old new log rest.
            map_of logs old = Some log \<longrightarrow>
              (if map_of logs new \<noteq> None
               then update_moving_roots ((old, new) # rest) logs =
                      Inl (CheckFailed ''logs_.find(new_root) == logs_.end()'')
               else \<exists>logs1. update_moving_roots ((old, new) # rest) logs =
                        update_moving_roots rest logs1
                      \<and> map_of logs1 = (map_of logs)(new \<mapsto> log, old := None))"
    by (intro allI impI) (rule update_moving_roots_move)
  show "\<forall>(logs :: (obj \<times> ArrayLog) list) old new log rest.
            map_of logs old = Some log \<longrightarrow>
              (if map_of logs new \<noteq> None
               then update_moving_roots ((old, new) # rest) logs =
                      Inl (CheckFailed ''logs_.find(new_root) == logs_.end()'')
               else \<exists>logs1. update_moving_roots ((old, new) # rest) logs =
                        update_moving_roots rest logs1
                      \<and> map_of logs1 = (map_of logs)(new \<mapsto> log, old := None))"
    by (intro allI impI) (rule update_moving_roots_move)
qed

theorem VisitRoots_rekeys_witness:
  "logs_distinct example_logged
   \<and> moves_to_fresh example_visitor (map fst (object_logs example_logged))
   \<and> moves_to_fresh example_visitor (map fst (array_logs example_logged))
   \<and> list_all (\<lambda>entry. \<not> IsObjectArray example_runtime (fst entry)) (array_logs example_logged)
   \<and> (\<exists>t'. VisitRoots example_runtime example_visitor example_logged = Inr t'
         \<and> map_of (object_logs t') 0x4000
             = Some [(12, \<lparr> fv_value = 0, fv_kind = k32Bits, fv_is_volatile = False \<rparr>)]
         \<and> map_of (object_logs t') 0x3000 = None
         \<and> map_of (array_logs t') 0x4100 = Some [(3, 7)]
         \<and> map_of (array_logs t') 0x3100 = None)
   \<and> VisitRoots example_runtime colliding_visitor example_two_objects
       = Inl (CheckFailed ''logs_.find(new_root) == logs_.end()'')"
proof -
  have h: "logs_distinct example_logged"
    and f: "moves_to_fresh example_visitor (map fst (object_logs example_logged))"
      "moves_to_fresh example_visitor (map fst (array_logs example_logged))"
      "list_all (\<lambda>entry. \<not> IsObjectArray example_runtime (fst entry)) (array_logs example_logged)"
    by (simp_all add: example_logged_def logs_distinct_def moves_to_fresh_def
        example_visitor_def example_runtime_def)
  note w = VisitRoots_rekeys [OF h, of example_runtime example_visitor]
  have "\<exists>t''. VisitRoots example_runtime example_visitor example_logged = Inr t''"
    by (rule w [THEN conjunct2, THEN conjunct1, THEN mp]) (simp add: f)
  then obtain t' where r: "VisitRoots example_runtime example_visitor example_logged = Inr t'" ..
  note c0 = w [of t', THEN conjunct1, THEN mp, OF r]
  note c = c0 [THEN conjunct1] c0 [THEN conjunct2, THEN conjunct1]
    c0 [THEN conjunct2, THEN conjunct2, THEN conjunct1]
    c0 [THEN conjunct2, THEN conjunct2, THEN conjunct2, THEN conjunct1]
  have o: "map_of (object_logs example_logged) 0x3000
      = Some [(12, \<lparr> fv_value = 0, fv_kind = k32Bits, fv_is_volatile = False \<rparr>)]"
    and a: "map_of (array_logs example_logged) 0x3100 = Some [(3, 7)]"
    by (simp_all add: example_logged_def)
  from c(1) [rule_format, OF o] have o': "map_of (object_logs t') 0x4000
      = Some [(12, \<lparr> fv_value = 0, fv_kind = k32Bits, fv_is_volatile = False \<rparr>)]"
    by (simp add: example_visitor_def)
  from c(3) [rule_format, OF a] have a': "map_of (array_logs t') 0x4100 = Some [(3, 7)]"
    by (simp add: example_visitor_def)
  from c(2) have "dom (map_of (object_logs t')) = {0x4000}"
    by (simp add: example_logged_def example_visitor_def)
  then have "(0x3000 :: obj) \<notin> dom (map_of (object_logs t'))" by simp
  then have o'': "map_of (object_logs t') 0x3000 = None" by (simp only: domIff not_not)
  from c(4) have "dom (map_of (array_logs t')) = {0x4100}"
    by (simp add: example_logged_def example_visitor_def)
  then have "(0x3100 :: obj) \<notin> dom (map_of (array_logs t'))" by simp
  then have a'': "map_of (array_logs t') 0x3100 = None" by (simp only: domIff not_not)
  have x: "VisitRoots example_runtime colliding_visitor example_two_objects
       = Inl (CheckFailed ''logs_.find(new_root) == logs_.end()'')"
    by (simp add: VisitRoots_def VisitObjectLogs_def example_two_objects_def
        colliding_visitor_def check_def Transaction_init_def)
  from r o' o'' a' a'' have "\<exists>t'. VisitRoots example_runtime example_visitor example_logged = Inr t'
         \<and> map_of (object_logs t') 0x4000
             = Some [(12, \<lparr> fv_value = 0, fv_kind = k32Bits, fv_is_volatile = False \<rparr>)]
         \<and> map_of (object_logs t') 0x3000 = None
         \<and> map_of (array_logs t') 0x4100 = Some [(3, 7)]
         \<and> map_of (array_logs t') 0x3100 = None"
    by blast
  with h f x show ?thesis by simp
qed

section \<open>Bit-exact undo\<close>

lemma bit_length_bounds:
  "0 < n \<Longrightarrow> 2 ^ (bit_length n - 1) \<le> n \<and> n < 2 ^ bit_length n"
proof (induction n rule: bit_length.induct)
  case (1 n)
  show ?case
  proof (cases "n div 2 = 0")
    case True
    with "1.prems" have "n = 1" by (simp add: div_eq_0_iff)
    then show ?thesis by (simp add: bit_length.simps)
  next
    case False
    then have pos: "0 < n div 2" by simp
    from "1.prems" have n0: "n \<noteq> 0" by simp
    from "1.IH" [OF n0 pos] have
      lo: "2 ^ (bit_length (n div 2) - 1) \<le> n div 2" and hi: "n div 2 < 2 ^ bit_length (n div 2)"
      by simp_all
    from pos have bl: "0 < bit_length (n div 2)" by (simp add: bit_length.simps [of "n div 2"])
    have eq: "bit_length n = Suc (bit_length (n div 2))"
      using n0 by (simp add: bit_length.simps [of n])
    from bl have "(2::nat) ^ bit_length (n div 2) = 2 * 2 ^ (bit_length (n div 2) - 1)"
      by (cases "bit_length (n div 2)") simp_all
    with lo hi show ?thesis unfolding eq by simp linarith
  qed
qed

lemma bit_length_le_64:
  assumes "n < 2 ^ 64" "0 < n"
  shows "bit_length n - 1 \<le> 63"
proof (rule ccontr)
  assume "\<not> bit_length n - 1 \<le> 63"
  then have "64 \<le> bit_length n - 1" by simp
  then have "(2::nat) ^ 64 \<le> 2 ^ (bit_length n - 1)" by (rule power_increasing) simp
  also from bit_length_bounds [OF assms(2)] have "\<dots> \<le> n" by simp
  finally show False using assms(1) by simp
qed


lemma uint_to_float_range:
  assumes "n < 2 ^ 64"
  shows "uint_to_ieee 23 127 n = 0 \<or> uint_to_ieee 23 127 n = 127 * 2 ^ 23
         \<or> (2 ^ 30 \<le> uint_to_ieee 23 127 n \<and> uint_to_ieee 23 127 n < 2 ^ 32)"
proof (cases "n = 0")
  case True
  then show ?thesis by (simp add: uint_to_ieee_def)
next
  case False
  then have pos: "0 < n" by simp
  define e where "e = bit_length n - 1"
  from pos have "0 < bit_length n" by (simp add: bit_length.simps [of n])
  then have bl: "bit_length n = Suc e" by (simp add: e_def)
  from bit_length_bounds [OF pos] have lo: "2 ^ e \<le> n" and hi: "n < 2 ^ Suc e"
    by (simp_all add: e_def [symmetric] bl)
  from bit_length_le_64 [OF assms pos] have e63: "e \<le> 63" by (simp add: e_def)
  show ?thesis
  proof (cases "e \<le> 23")
    case True
    define m where "m = n * 2 ^ (23 - e)"
    from True have split: "(2::nat) ^ e * 2 ^ (23 - e) = 2 ^ 23"
      by (simp flip: power_add)
    from lo have "2 ^ e * 2 ^ (23 - e) \<le> m" unfolding m_def by (rule mult_le_mono1)
    then have m_lo: "2 ^ 23 \<le> m" by (simp only: split)
    from hi have "m < 2 ^ Suc e * 2 ^ (23 - e)" unfolding m_def by simp
    also have "(2::nat) ^ Suc e * 2 ^ (23 - e) = 2 * 2 ^ 23"
      using split by simp
    finally have m_hi: "m < 2 ^ 24" by simp
    have r: "uint_to_ieee 23 127 n = (e + 127) * 2 ^ 23 + (m - 2 ^ 23)"
      unfolding uint_to_ieee_def Let_def
      unfolding e_def [symmetric] m_def
      using \<open>n \<noteq> 0\<close> True by simp
    show ?thesis
    proof (cases "e = 0")
      case True
      with lo hi have "n = 1" by simp
      with True have "m = 2 ^ 23" by (simp add: m_def)
      with True r show ?thesis by simp
    next
      case False
      then have "1 \<le> e" by simp
      with m_lo m_hi True have "2 ^ 30 \<le> (e + 127) * 2 ^ 23 + (m - 2 ^ 23)"
        "(e + 127) * 2 ^ 23 + (m - 2 ^ 23) < 2 ^ 32"
        by simp_all
      with r show ?thesis by simp
    qed
  next
    case False
    then have e_lo: "24 \<le> e" by simp
    define sh where "sh = e - 23"
    define q where "q = n div 2 ^ sh"
    define q' where "q' = (if 2 ^ (sh - 1) < n mod 2 ^ sh \<or> (n mod 2 ^ sh = 2 ^ (sh - 1) \<and> odd q)
                          then q + 1 else q)"
    from e_lo have "Suc e = 24 + sh" by (simp add: sh_def)
    then have "(2::nat) ^ Suc e = 2 ^ 24 * 2 ^ sh" by (simp only: power_add)
    with hi have "n < 2 ^ 24 * 2 ^ sh" by simp
    then have q_hi: "q < 2 ^ 24" unfolding q_def by (rule less_mult_imp_div_less)
    have q'_le: "q' \<le> q + 1" by (simp add: q'_def)
    have r: "uint_to_ieee 23 127 n =
        (if q' = 2 ^ 24 then (e + 1 + 127) * 2 ^ 23 else (e + 127) * 2 ^ 23 + (q' - 2 ^ 23))"
      unfolding uint_to_ieee_def Let_def
      unfolding e_def [symmetric]
      unfolding q'_def q_def sh_def
      using \<open>n \<noteq> 0\<close> False by simp
    from e_lo have b1: "2 ^ 30 \<le>
        (if q' = 2 ^ 24 then (e + 1 + 127) * 2 ^ 23 else (e + 127) * 2 ^ 23 + (q' - 2 ^ 23))"
      by simp
    from q_hi q'_le have "q' \<le> 16777216" by simp
    with e63 have b2:
      "(if q' = 2 ^ 24 then (e + 1 + 127) * 2 ^ 23 else (e + 127) * 2 ^ 23 + (q' - 2 ^ 23))
        < 2 ^ 32"
      by simp arith
    from b1 b2 r show ?thesis by simp
  qed
qed

lemma static_cast_float_range:
  "static_cast_float v = 0 \<or> static_cast_float v = 0x3F800000
   \<or> (0x40000000 \<le> static_cast_float v)"
proof -
  have n: "unat v < 2 ^ 64" using unsigned_less [of v] by simp
  from uint_to_float_range [OF n] show ?thesis
  proof (elim disjE conjE)
    assume "uint_to_ieee 23 127 (unat v) = 0"
    then show ?thesis by (simp add: static_cast_float_def)
  next
    assume "uint_to_ieee 23 127 (unat v) = 127 * 2 ^ 23"
    then show ?thesis by (simp add: static_cast_float_def)
  next
    assume lo: "2 ^ 30 \<le> uint_to_ieee 23 127 (unat v)"
      and hi: "uint_to_ieee 23 127 (unat v) < 2 ^ 32"
    from hi have "unat (of_nat (uint_to_ieee 23 127 (unat v)) :: 32 word)
        = uint_to_ieee 23 127 (unat v)"
      by (simp add: unat_of_nat)
    with lo have "unat (0x40000000 :: 32 word) \<le> unat (static_cast_float v)"
      by (simp add: static_cast_float_def)
    then show ?thesis by (simp only: word_le_nat_alt simp_thms)
  qed
qed

lemma static_cast_float_never_one_and_a_half: "static_cast_float v \<noteq> 0x3FC00000"
  using static_cast_float_range [of v] by auto

lemma UndoArrayWrite_integral:
  "UndoArrayWrite a kPrimBoolean i v = Inr (BooleanArray_Set a (ucast i) (ucast v))"
  "UndoArrayWrite a kPrimByte i v = Inr (ByteArray_Set a (ucast i) (ucast v))"
  "UndoArrayWrite a kPrimChar i v = Inr (CharArray_Set a (ucast i) (ucast v))"
  "UndoArrayWrite a kPrimShort i v = Inr (ShortArray_Set a (ucast i) (ucast v))"
  "UndoArrayWrite a kPrimInt i v = Inr (IntArray_Set a (ucast i) (ucast v))"
  "UndoArrayWrite a kPrimLong i v = Inr (LongArray_Set a (ucast i) v)"
  by (simp_all add: UndoArrayWrite_def)

lemma ucast_scast_32_64: "ucast (scast (v :: 32 word) :: 64 word) = v"
  by (rule bit_word_eqI) (auto simp: bit_simps)

lemma static_cast_float_example: "static_cast_float 0x3FC00000 = 0x4E7F0000"
  by (simp add: static_cast_float_def uint_to_ieee_def bit_length.simps)

lemma static_cast_float_one: "static_cast_float 1 = 0x3F800000"
  by (simp add: static_cast_float_def uint_to_ieee_def bit_length.simps)

lemma static_cast_double_one: "static_cast_double 1 = 0x3FF0000000000000"
  by (simp add: static_cast_double_def uint_to_ieee_def bit_length.simps)

text \<open>
  C2 holds for the seven field kinds (\<open>UndoFieldWrite_logged\<close>) and the six integral
  array types (\<open>UndoArrayWrite_integral\<close>), and fails for \<open>float\<close> and \<open>double\<close>
  arrays. With the bits \<open>0x3FC00000\<close> of \<open>1.5f\<close> logged for element \<open>0\<close> of the float
  array, the rollback stores the number \<open>1069547520\<close> as a float, bits \<open>0x4E7F0000\<close>,
  not the logged bits; with \<open>1\<close> logged it stores \<open>1.0f\<close>, and for a double array
  \<open>1.0\<close>. No logged value makes the undo store \<open>1.5f\<close>.
\<close>

theorem UndoArrayWrite_float_converts_value:
  "UndoArrayWrite 0x3200 kPrimFloat 0 0x3FC00000 = Inr (FloatArray_Set 0x3200 0 0x4E7F0000)
   \<and> (0x4E7F0000 :: 32 word) \<noteq> ucast (0x3FC00000 :: 64 word)
   \<and> UndoArrayWrite 0x3200 kPrimFloat 0 1 = Inr (FloatArray_Set 0x3200 0 0x3F800000)
   \<and> UndoArrayWrite 0x3200 kPrimDouble 0 1 = Inr (DoubleArray_Set 0x3200 0 0x3FF0000000000000)
   \<and> (\<forall>v. UndoArrayWrite 0x3200 kPrimFloat 0 v \<noteq> Inr (FloatArray_Set 0x3200 0 0x3FC00000))
   \<and> (\<exists>t1 t'. RecordWriteArray example_runtime 0x3200 0 0x3FC00000 (Transaction_init True 0x2000)
                 = Inr t1
             \<and> Rollback example_runtime t1
                 = Inr (t', [ArrayWrite (FloatArray_Set 0x3200 0 0x4E7F0000)]))"
proof (intro conjI)
  show "UndoArrayWrite 0x3200 kPrimFloat 0 0x3FC00000 = Inr (FloatArray_Set 0x3200 0 0x4E7F0000)"
    by (simp add: UndoArrayWrite_def static_cast_float_example)
  show "(0x4E7F0000 :: 32 word) \<noteq> ucast (0x3FC00000 :: 64 word)"
    by simp
  show "UndoArrayWrite 0x3200 kPrimFloat 0 1 = Inr (FloatArray_Set 0x3200 0 0x3F800000)"
    by (simp add: UndoArrayWrite_def static_cast_float_one)
  show "UndoArrayWrite 0x3200 kPrimDouble 0 1 = Inr (DoubleArray_Set 0x3200 0 0x3FF0000000000000)"
    by (simp add: UndoArrayWrite_def static_cast_double_one)
  show "\<forall>v. UndoArrayWrite 0x3200 kPrimFloat 0 v \<noteq> Inr (FloatArray_Set 0x3200 0 0x3FC00000)"
    by (simp add: UndoArrayWrite_def static_cast_float_never_one_and_a_half)
  have "RecordWriteArray example_runtime 0x3200 0 0x3FC00000 (Transaction_init True 0x2000)
          = Inr ((Transaction_init True 0x2000)\<lparr> array_logs := [(0x3200, [(0, 0x3FC00000)])] \<rparr>)"
    by (simp add: RecordWriteArray_def dcheck_def example_runtime_def Transaction_init_def
        ArrayLog_LogValue_def nullptr_def)
  moreover have "Rollback example_runtime
        ((Transaction_init True 0x2000)\<lparr> array_logs := [(0x3200, [(0, 0x3FC00000)])] \<rparr>)
      = Inr (Transaction_init True 0x2000, [ArrayWrite (FloatArray_Set 0x3200 0 0x4E7F0000)])"
    by (simp add: Rollback_def Rollback_steps_def Let_def dcheck_def check_def example_runtime_def Transaction_init_def
        UndoObjectModifications_def UndoArrayModifications_def
        UndoInternStringTableModifications_def UndoResolveStringModifications_def
        ArrayLog_Undo_def UndoArrayWrite_def static_cast_float_example nullptr_def)
  ultimately show "\<exists>t1 t'.
      RecordWriteArray example_runtime 0x3200 0 0x3FC00000 (Transaction_init True 0x2000) = Inr t1
      \<and> Rollback example_runtime t1 = Inr (t', [ArrayWrite (FloatArray_Set 0x3200 0 0x4E7F0000)])"
    by blast
qed

end
